theory Spec2Isabelle
  imports Main
begin

section \<open>The filesystem the fixer runs against\<close>

text \<open>
  The package \<^verbatim>\<open>internal/fixer\<close> talks to the operating system through \<^verbatim>\<open>os.Stat\<close>,
  \<^verbatim>\<open>os.Remove\<close> and \<^verbatim>\<open>filepath.Walk\<close>.  The filesystem is a tree of nodes.  A path is the
  list of its components, so \<^verbatim>\<open>filepath.Join(path, name)\<close> is \<open>path @ [name]\<close>, and the
  empty path is the root of the tree.

  \<open>Dir readable writable entries\<close> is a directory: it carries the two permissions the code
  can run into (listing the directory, removing an entry from it) and its entries, in the
  order in which a listing reports them (\<^verbatim>\<open>filepath.Walk\<close> sorts the names; no statement
  below depends on the order).  A name is looked up by its first entry and removed with all
  its entries, so nothing depends on names being distinct either.  A node that is neither a
  directory nor a regular file (a named pipe, a socket, a device) is \<open>Special\<close>.

  Symbolic links are outside the model, so \<^verbatim>\<open>os.Stat\<close> and \<^verbatim>\<open>os.Lstat\<close> coincide, and
  search permission on directories is taken as granted.  Nothing but the code changes the
  filesystem while it runs.
\<close>

type_synonym path = "string list"

datatype node =
    Regular
  | Special
  | Dir bool bool "(string \<times> node) list"

datatype Errno = ENOENT | ENOTDIR | EACCES | ENOTEMPTY | EBUSY

datatype FileMode = ModeRegular | ModeIrregular | ModeDir

datatype FileInfo = FileInfo FileMode

fun Mode :: "FileInfo \<Rightarrow> FileMode" where
  "Mode (FileInfo m) = m"

definition IsDir :: "FileInfo \<Rightarrow> bool" where
  "IsDir info = (Mode info = ModeDir)"

definition IsRegular :: "FileInfo \<Rightarrow> bool" where
  "IsRegular info = (Mode info = ModeRegular)"

text \<open>The errors the package handles or produces: a failed system call on a path, the
  wrapped removal failure of \<^verbatim>\<open>CleanupStyleConflicts\<close>, the aggregate of
  \<^verbatim>\<open>ValidateNoStyleConflicts\<close>, and the panic of a method call on a nil \<^verbatim>\<open>FileInfo\<close>.\<close>

datatype error =
    PathError path Errno
  | RemoveFailed path error
  | StyleConflicts string
  | NilPanic

fun os_IsNotExist :: "error \<Rightarrow> bool" where
  "os_IsNotExist (PathError p e) = (e = ENOENT)"
| "os_IsNotExist _ = False"

fun mode_of :: "node \<Rightarrow> FileMode" where
  "mode_of Regular = ModeRegular"
| "mode_of Special = ModeIrregular"
| "mode_of (Dir r w es) = ModeDir"

fun lookup :: "node \<Rightarrow> path \<Rightarrow> Errno + node" where
  "lookup n [] = Inr n"
| "lookup (Dir r w es) (x # xs) =
     (case map_of es x of None \<Rightarrow> Inl ENOENT | Some c \<Rightarrow> lookup c xs)"
| "lookup n (x # xs) = Inl ENOTDIR"

definition os_Lstat :: "node \<Rightarrow> path \<Rightarrow> error + FileInfo" where
  "os_Lstat fs p =
     (case lookup fs p of Inl e \<Rightarrow> Inl (PathError p e) | Inr n \<Rightarrow> Inr (FileInfo (mode_of n)))"

definition os_Stat :: "node \<Rightarrow> path \<Rightarrow> error + FileInfo" where
  "os_Stat fs p = os_Lstat fs p"

definition readDirNames :: "node \<Rightarrow> path \<Rightarrow> error + string list" where
  "readDirNames fs p =
     (case lookup fs p of
        Inl e \<Rightarrow> Inl (PathError p e)
      | Inr (Dir r w es) \<Rightarrow> if r then Inr (map fst es) else Inl (PathError p EACCES)
      | Inr _ \<Rightarrow> Inl (PathError p ENOTDIR))"

text \<open>\<^verbatim>\<open>os.Remove\<close> unlinks a file or removes an empty directory; the parent directory must
  be writable.\<close>

fun remove_at :: "node \<Rightarrow> path \<Rightarrow> Errno + node" where
  "remove_at n [] = Inl EBUSY"
| "remove_at (Dir r w es) [x] =
     (case map_of es x of
        None \<Rightarrow> Inl ENOENT
      | Some c \<Rightarrow>
          if \<not> w then Inl EACCES
          else (case c of
                  Dir r' w' (e # es') \<Rightarrow> Inl ENOTEMPTY
                | _ \<Rightarrow> Inr (Dir r w (filter (\<lambda>e. fst e \<noteq> x) es))))"
| "remove_at (Dir r w es) (x # y # ys) =
     (case map_of es x of
        None \<Rightarrow> Inl ENOENT
      | Some c \<Rightarrow>
          (case remove_at c (y # ys) of
             Inl e \<Rightarrow> Inl e
           | Inr c' \<Rightarrow> Inr (Dir r w (map (\<lambda>e. if fst e = x then (x, c') else e) es))))"
| "remove_at n (x # xs) = Inl ENOTDIR"

definition os_Remove :: "node \<Rightarrow> path \<Rightarrow> error + node" where
  "os_Remove fs p =
     (case remove_at fs p of Inl e \<Rightarrow> Inl (PathError p e) | Inr fs' \<Rightarrow> Inr fs')"

fun height :: "node \<Rightarrow> nat" where
  "height (Dir r w es) = Suc (foldr max (map (\<lambda>e. height (snd e)) es) 0)"
| "height n = 0"

subsection \<open>\<^verbatim>\<open>filepath.Walk\<close>\<close>

text \<open>
  \<^verbatim>\<open>filepath.Walk(root, fn)\<close> of the Go standard library: \<^verbatim>\<open>Lstat\<close> the root; on an error
  call \<^verbatim>\<open>fn(root, nil, err)\<close>, else \<^verbatim>\<open>walk\<close>.  \<^verbatim>\<open>walk(path, info, fn)\<close> calls
  \<^verbatim>\<open>fn(path, info, nil)\<close> on a non-directory; on a directory it reads the names FIRST, then
  calls \<^verbatim>\<open>fn(path, info, err)\<close> with the error of the read, returns what \<^verbatim>\<open>fn\<close> returned if
  either failed, and otherwise goes through the names: \<^verbatim>\<open>Lstat\<close> of the joined path, on an
  error \<^verbatim>\<open>fn(filename, nil, err)\<close>, else \<^verbatim>\<open>walk\<close> recursively; the first error returned ends
  the walk.  The visitors of this package never return \<^verbatim>\<open>SkipDir\<close> or \<^verbatim>\<open>SkipAll\<close>, so those
  branches are left out.  The visitor is a closure: it sees the filesystem and the
  variables it captured, here the second component of the state.

  The recursion of \<^verbatim>\<open>walk\<close> follows directories of the filesystem as the visitor leaves
  it, so it is bounded by a depth budget; \<open>None\<close> stands for a walk that exhausted it.
\<close>

type_synonym 'a WalkFunc =
  "path \<Rightarrow> FileInfo option \<Rightarrow> error option \<Rightarrow> node \<times> 'a \<Rightarrow> error option \<times> (node \<times> 'a)"

fun walk :: "nat \<Rightarrow> 'a WalkFunc \<Rightarrow> path \<Rightarrow> FileInfo \<Rightarrow> node \<times> 'a \<Rightarrow> (error option \<times> (node \<times> 'a)) option"
and walk_names :: "nat \<Rightarrow> 'a WalkFunc \<Rightarrow> path \<Rightarrow> string list \<Rightarrow> node \<times> 'a \<Rightarrow> (error option \<times> (node \<times> 'a)) option"
where
  "walk 0 fn path info st = None"
| "walk (Suc k) fn path info st =
     (if \<not> IsDir info then Some (fn path (Some info) None st)
      else (case readDirNames (fst st) path of
              Inl err \<Rightarrow> Some (fn path (Some info) (Some err) st)
            | Inr names \<Rightarrow>
                (case fn path (Some info) None st of
                   (Some err1, st1) \<Rightarrow> Some (Some err1, st1)
                 | (None, st1) \<Rightarrow> walk_names k fn path names st1)))"
| "walk_names k fn path [] st = Some (None, st)"
| "walk_names k fn path (name # names) st =
     (let filename = path @ [name] in
      case os_Lstat (fst st) filename of
        Inl err \<Rightarrow>
          (case fn filename None (Some err) st of
             (Some e, st') \<Rightarrow> Some (Some e, st')
           | (None, st') \<Rightarrow> walk_names k fn path names st')
      | Inr fileInfo \<Rightarrow>
          (case walk k fn filename fileInfo st of
             None \<Rightarrow> None
           | Some (Some e, st') \<Rightarrow> Some (Some e, st')
           | Some (None, st') \<Rightarrow> walk_names k fn path names st'))"

definition filepath_Walk :: "path \<Rightarrow> 'a WalkFunc \<Rightarrow> node \<times> 'a \<Rightarrow> (error option \<times> (node \<times> 'a)) option" where
  "filepath_Walk root fn st =
     (case os_Lstat (fst st) root of
        Inl err \<Rightarrow> Some (fn root None (Some err) st)
      | Inr info \<Rightarrow> walk (Suc (height (fst st))) fn root info st)"


section \<open>The package \<^verbatim>\<open>fixer\<close>\<close>

record StyleConflictPair =
  GoZeroStyle :: string
  GoZeroFlat :: string

definition knownStyleConflicts :: "StyleConflictPair list" where
  "knownStyleConflicts =
     [\<lparr>GoZeroStyle = ''service_context.go'', GoZeroFlat = ''servicecontext.go''\<rparr>]"

definition fileExists :: "node \<Rightarrow> path \<Rightarrow> bool" where
  "fileExists fs p =
     (case os_Stat fs p of
        Inl err \<Rightarrow> False
      | Inr info \<Rightarrow> \<not> IsDir info)"

subsection \<open>\<^verbatim>\<open>CleanupStyleConflicts\<close>\<close>

text \<open>Lines 61 to 66: the re-check of \<^verbatim>\<open>fileToRemove\<close> and its removal.  The result is the
  error that makes the visitor return, if any, and the filesystem left behind.\<close>

definition removeIfExists :: "node \<Rightarrow> path \<Rightarrow> error option \<times> node" where
  "removeIfExists fs fileToRemove =
     (if fileExists fs fileToRemove then
        (case os_Remove fs fileToRemove of
           Inl err \<Rightarrow> (Some (RemoveFailed fileToRemove err), fs)
         | Inr fs' \<Rightarrow> (None, fs'))
      else (None, fs))"

text \<open>Lines 44 to 68: the loop over the conflict pairs in one directory.\<close>

fun cleanupPairs :: "bool \<Rightarrow> path \<Rightarrow> StyleConflictPair list \<Rightarrow> node \<Rightarrow> error option \<times> node" where
  "cleanupPairs keepGoZeroStyle path [] fs = (None, fs)"
| "cleanupPairs keepGoZeroStyle path (conflict # rest) fs =
     (let goZeroFile = path @ [GoZeroStyle conflict];
          gozeroFile = path @ [GoZeroFlat conflict];
          goZeroExists = fileExists fs goZeroFile;
          gozeroExists = fileExists fs gozeroFile
      in if goZeroExists \<and> gozeroExists then
           (let fileToRemove = (if keepGoZeroStyle then gozeroFile else goZeroFile)
            in case removeIfExists fs fileToRemove of
                 (Some err, fs') \<Rightarrow> (Some err, fs')
               | (None, fs') \<Rightarrow> cleanupPairs keepGoZeroStyle path rest fs')
         else cleanupPairs keepGoZeroStyle path rest fs)"

text \<open>Lines 29 to 71: the visitor.\<close>

definition cleanupVisit :: "bool \<Rightarrow> unit WalkFunc" where
  "cleanupVisit keepGoZeroStyle path info err st =
     (case err of
        Some e \<Rightarrow> if os_IsNotExist e then (None, st) else (Some e, st)
      | None \<Rightarrow>
          (case info of
             None \<Rightarrow> (Some NilPanic, st)
           | Some i \<Rightarrow>
               if \<not> IsDir i then (None, st)
               else (case cleanupPairs keepGoZeroStyle path knownStyleConflicts (fst st) of
                       (e, fs') \<Rightarrow> (e, (fs', ())))))"

definition CleanupStyleConflicts :: "node \<Rightarrow> path \<Rightarrow> string \<Rightarrow> (error option \<times> node) option" where
  "CleanupStyleConflicts fs projectPath style =
     (let keepGoZeroStyle = (style = ''go_zero'')
      in map_option (\<lambda>(err, st). (err, fst st))
           (filepath_Walk projectPath (cleanupVisit keepGoZeroStyle) (fs, ())))"

subsection \<open>\<^verbatim>\<open>DetectExistingStyle\<close> and \<^verbatim>\<open>SuggestStyleBasedOnExisting\<close>\<close>

definition commonDirs :: "path \<Rightarrow> path list" where
  "commonDirs projectPath =
     [projectPath @ [''internal'', ''svc''],
      projectPath @ [''internal'', ''handler''],
      projectPath @ [''internal'', ''logic'']]"

text \<open>The inner loop over the directories; \<open>None\<close> when it falls through.\<close>

fun detectInDirs :: "node \<Rightarrow> StyleConflictPair \<Rightarrow> path list \<Rightarrow> string option" where
  "detectInDirs fs conflict [] = None"
| "detectInDirs fs conflict (dir # dirs) =
     (let goZeroFile = dir @ [GoZeroStyle conflict];
          gozeroFile = dir @ [GoZeroFlat conflict]
      in if fileExists fs goZeroFile then Some ''go_zero''
         else if fileExists fs gozeroFile then Some ''gozero''
         else detectInDirs fs conflict dirs)"

fun detectPairs :: "node \<Rightarrow> path \<Rightarrow> StyleConflictPair list \<Rightarrow> string" where
  "detectPairs fs projectPath [] = []"
| "detectPairs fs projectPath (conflict # rest) =
     (case detectInDirs fs conflict (commonDirs projectPath) of
        Some style \<Rightarrow> style
      | None \<Rightarrow> detectPairs fs projectPath rest)"

definition DetectExistingStyle :: "node \<Rightarrow> path \<Rightarrow> string" where
  "DetectExistingStyle fs projectPath = detectPairs fs projectPath knownStyleConflicts"

definition SuggestStyleBasedOnExisting :: "node \<Rightarrow> path \<Rightarrow> string \<Rightarrow> string" where
  "SuggestStyleBasedOnExisting fs projectPath defaultStyle =
     (let existingStyle = DetectExistingStyle fs projectPath
      in if existingStyle \<noteq> [] then existingStyle else defaultStyle)"

subsection \<open>\<^verbatim>\<open>ValidateNoStyleConflicts\<close>\<close>

fun strings_Join :: "string list \<Rightarrow> string \<Rightarrow> string" where
  "strings_Join [] sep = []"
| "strings_Join [x] sep = x"
| "strings_Join (x # y # ys) sep = x @ sep @ strings_Join (y # ys) sep"

text \<open>\<^verbatim>\<open>filepath.Rel\<close> on component lists: drop the common prefix, climb out of what is left
  of the base, and print \<^verbatim>\<open>.\<close> for the base itself.\<close>

fun relComponents :: "path \<Rightarrow> path \<Rightarrow> path" where
  "relComponents (b # base) (t # targ) =
     (if b = t then relComponents base targ else replicate (Suc (length base)) ''..'' @ t # targ)"
| "relComponents base targ = replicate (length base) ''..'' @ targ"

definition filepath_Rel :: "path \<Rightarrow> path \<Rightarrow> string" where
  "filepath_Rel basepath targpath =
     (case relComponents basepath targpath of [] \<Rightarrow> ''.'' | cs \<Rightarrow> strings_Join cs ''/'')"

definition conflictLine :: "path \<Rightarrow> path \<Rightarrow> StyleConflictPair \<Rightarrow> string" where
  "conflictLine projectPath path conflict =
     filepath_Rel projectPath path @ '': both '' @ GoZeroStyle conflict @ '' and ''
       @ GoZeroFlat conflict @ '' exist''"

text \<open>Lines 135 to 144: the loop over the conflict pairs in one directory.\<close>

fun validatePairs :: "path \<Rightarrow> path \<Rightarrow> node \<Rightarrow> StyleConflictPair list \<Rightarrow> string list \<Rightarrow> string list" where
  "validatePairs projectPath path fs [] conflicts = conflicts"
| "validatePairs projectPath path fs (conflict # rest) conflicts =
     (let goZeroFile = path @ [GoZeroStyle conflict];
          gozeroFile = path @ [GoZeroFlat conflict]
      in if fileExists fs goZeroFile \<and> fileExists fs gozeroFile
         then validatePairs projectPath path fs rest
                (conflicts @ [conflictLine projectPath path conflict])
         else validatePairs projectPath path fs rest conflicts)"

definition validateVisit :: "path \<Rightarrow> (string list) WalkFunc" where
  "validateVisit projectPath path info err st =
     (case err of
        Some e \<Rightarrow> (Some e, st)
      | None \<Rightarrow>
          (case info of
             None \<Rightarrow> (Some NilPanic, st)
           | Some i \<Rightarrow>
               if \<not> IsDir i then (None, st)
               else (None, (fst st,
                       validatePairs projectPath path (fst st) knownStyleConflicts (snd st)))))"

definition conflictsMessage :: "string list \<Rightarrow> string" where
  "conflictsMessage conflicts =
     ''style conflicts detected:'' @ [CHR 0x0A] @ strings_Join conflicts [CHR 0x0A]"

text \<open>The result is the returned error, \<open>None\<close> for \<^verbatim>\<open>nil\<close>; the outer option is the depth
  budget of the walk.\<close>

definition ValidateNoStyleConflicts :: "node \<Rightarrow> path \<Rightarrow> (error option) option" where
  "ValidateNoStyleConflicts fs projectPath =
     (case filepath_Walk projectPath (validateVisit projectPath) (fs, []) of
        None \<Rightarrow> None
      | Some (Some err, st) \<Rightarrow> Some (Some err)
      | Some (None, st) \<Rightarrow>
          if length (snd st) > 0 then Some (Some (StyleConflicts (conflictsMessage (snd st))))
          else Some None)"

section \<open>What the code observes of the filesystem\<close>

text \<open>The code sees the filesystem only through the mode of the entry at a path and the
  read permission of a directory.  A conflict is a directory in which both names of a pair
  pass \<open>fileExists\<close>; the file the cleanup may remove is the one of the style not kept.
  \<open>shrunk keep fs0 fs\<close> relates a filesystem to a later one that differs from it only by
  such files having gone.\<close>

definition modeAt :: "node \<Rightarrow> path \<Rightarrow> FileMode option" where
  "modeAt fs q = (case lookup fs q of Inl e \<Rightarrow> None | Inr n \<Rightarrow> Some (mode_of n))"

definition readableAt :: "node \<Rightarrow> path \<Rightarrow> bool" where
  "readableAt fs q = (case lookup fs q of Inr (Dir r w es) \<Rightarrow> r | _ \<Rightarrow> False)"

definition conflictIn :: "node \<Rightarrow> path \<Rightarrow> StyleConflictPair \<Rightarrow> bool" where
  "conflictIn fs dir conflict =
     (fileExists fs (dir @ [GoZeroStyle conflict]) \<and> fileExists fs (dir @ [GoZeroFlat conflict]))"

definition unselected :: "bool \<Rightarrow> StyleConflictPair \<Rightarrow> string" where
  "unselected keepGoZeroStyle conflict =
     (if keepGoZeroStyle then GoZeroFlat conflict else GoZeroStyle conflict)"

definition selected :: "bool \<Rightarrow> StyleConflictPair \<Rightarrow> string" where
  "selected keepGoZeroStyle conflict =
     (if keepGoZeroStyle then GoZeroStyle conflict else GoZeroFlat conflict)"

definition removable :: "bool \<Rightarrow> node \<Rightarrow> path \<Rightarrow> bool" where
  "removable keep fs q =
     (\<exists>d c. c \<in> set knownStyleConflicts \<and> q = d @ [unselected keep c] \<and> conflictIn fs d c)"

definition shrunk :: "bool \<Rightarrow> node \<Rightarrow> node \<Rightarrow> bool" where
  "shrunk keep fs0 fs =
     ((\<forall>q. readableAt fs q = readableAt fs0 q) \<and>
      (\<forall>q. modeAt fs q = modeAt fs0 q \<or> (modeAt fs q = None \<and> removable keep fs0 q)))"

text \<open>Helpers for the walk: a later filesystem holds no entry the earlier one lacks
  (\<open>subfs\<close>); no entry lies \<open>k\<close> or more levels below a path (\<open>bounded\<close>); every directory
  at or below a path can be listed (\<open>allReadable\<close>) and, beyond that, holds no conflict
  (\<open>settled\<close>); and the diagnostic lines of the conflicts at or below a path.\<close>

definition subfs :: "node \<Rightarrow> node \<Rightarrow> bool" where
  "subfs fs' fs = (\<forall>p. modeAt fs' p \<noteq> None \<longrightarrow> modeAt fs p \<noteq> None)"

definition bounded :: "node \<Rightarrow> path \<Rightarrow> nat \<Rightarrow> bool" where
  "bounded fs q k = (\<forall>r. modeAt fs (q @ r) \<noteq> None \<longrightarrow> length r < k)"

definition settled :: "node \<Rightarrow> path \<Rightarrow> bool" where
  "settled fs q =
     (\<forall>r. modeAt fs (q @ r) = Some ModeDir \<longrightarrow>
        readableAt fs (q @ r) \<and> (\<forall>c\<in>set knownStyleConflicts. \<not> conflictIn fs (q @ r) c))"

definition allReadable :: "node \<Rightarrow> path \<Rightarrow> bool" where
  "allReadable fs q = (\<forall>r. modeAt fs (q @ r) = Some ModeDir \<longrightarrow> readableAt fs (q @ r))"

definition conflictLinesBelow :: "node \<Rightarrow> path \<Rightarrow> path \<Rightarrow> string set" where
  "conflictLinesBelow fs projectPath q =
     {conflictLine projectPath (q @ r) c | r c.
        modeAt fs (q @ r) = Some ModeDir \<and> c \<in> set knownStyleConflicts \<and> conflictIn fs (q @ r) c}"

text \<open>The scenario of the specification: a project whose \<^verbatim>\<open>internal/svc\<close> holds both
  names of the known pair.\<close>

definition exampleProject :: node where
  "exampleProject =
     Dir True True
       [(''internal'', Dir True True
          [(''svc'', Dir True True
             [(''service_context.go'', Regular), (''servicecontext.go'', Regular)]),
           (''handler'', Dir True True [(''routes.go'', Regular)])]),
        (''go.mod'', Regular)]"

text \<open>The same project after a cleanup for \<^verbatim>\<open>go_zero\<close> and after one for \<^verbatim>\<open>gozero\<close>; a
  directory that holds the pair but cannot be changed; and a project with a directory that
  cannot be listed.\<close>

definition exampleCleanedGoZero :: node where
  "exampleCleanedGoZero =
     Dir True True
       [(''internal'', Dir True True
          [(''svc'', Dir True True [(''service_context.go'', Regular)]),
           (''handler'', Dir True True [(''routes.go'', Regular)])]),
        (''go.mod'', Regular)]"


definition readOnlyProject :: node where
  "readOnlyProject =
     Dir True False [(''service_context.go'', Regular), (''servicecontext.go'', Regular)]"

definition lockedProject :: node where
  "lockedProject =
     Dir True True
       [(''service_context.go'', Regular), (''servicecontext.go'', Regular),
        (''vendor'', Dir False True [])]"

section \<open>Lemmas on the filesystem\<close>

lemma lookup_append:
  "lookup fs (p @ q) = (case lookup fs p of Inl e \<Rightarrow> Inl e | Inr n \<Rightarrow> lookup n q)"
  by (induction fs p rule: lookup.induct) (auto split: option.splits)

lemma map_of_filter_neq:
  "map_of (filter (\<lambda>e. fst e \<noteq> x) es) y = (if y = x then None else map_of es y)"
  by (induction es) auto

lemma map_of_replace:
  "map_of (map (\<lambda>e. if fst e = x then (x, c) else e) es) y =
     (if y = x then map_option (\<lambda>_. c) (map_of es x) else map_of es y)"
  by (induction es) auto

lemma lookup_nondir: "mode_of t \<noteq> ModeDir \<Longrightarrow> lookup t (y # ys) = Inl ENOTDIR"
  by (cases t) auto

lemma lookup_nondir_Inr: "mode_of t \<noteq> ModeDir \<Longrightarrow> (lookup t q = Inr n) = (q = [] \<and> n = t)"
  by (cases t; cases q) auto

lemma lookup_Regular [simp]: "(lookup Regular q = Inr n) = (q = [] \<and> n = Regular)"
  by (simp add: lookup_nondir_Inr)

lemma lookup_Special [simp]: "(lookup Special q = Inr n) = (q = [] \<and> n = Special)"
  by (simp add: lookup_nondir_Inr)

lemma modeAt_Cons:
  "modeAt (Dir r w es) (z # zs) = (case map_of es z of None \<Rightarrow> None | Some c \<Rightarrow> modeAt c zs)"
  by (simp add: modeAt_def split: option.splits)

lemma modeAt_Nil: "modeAt n [] = Some (mode_of n)"
  by (simp add: modeAt_def)

lemma modeAt_nondir:
  "mode_of t \<noteq> ModeDir \<Longrightarrow> modeAt t zs = (if zs = [] then Some (mode_of t) else None)"
  by (cases t; cases zs) (auto simp: modeAt_def)

lemma readableAt_Cons:
  "readableAt (Dir r w es) (z # zs) = (case map_of es z of None \<Rightarrow> False | Some c \<Rightarrow> readableAt c zs)"
  by (simp add: readableAt_def split: option.splits)

lemma readableAt_Nil: "readableAt (Dir r w es) [] = r"
  by (simp add: readableAt_def)

lemma readableAt_nondir: "mode_of t \<noteq> ModeDir \<Longrightarrow> readableAt t q = False"
  by (cases t; cases q) (auto simp: readableAt_def)

lemma remove_at_mode:
  "remove_at n f = Inr n' \<Longrightarrow> lookup n f = Inr t \<Longrightarrow> mode_of t \<noteq> ModeDir \<Longrightarrow>
   modeAt n' q = (if q = f then None else modeAt n q)"
proof (induction n f arbitrary: n' q rule: remove_at.induct)
  case (2 r w es x)
  then show ?case
    by (cases q)
      (auto simp: modeAt_Cons modeAt_Nil modeAt_nondir map_of_filter_neq
            split: option.splits if_splits node.splits list.splits)
next
  case (3 r w es x y ys)
  then show ?case
    by (cases q)
      (auto simp: modeAt_Cons modeAt_Nil map_of_replace
            split: option.splits if_splits sum.splits)
qed simp_all

lemma remove_at_readable:
  "remove_at n f = Inr n' \<Longrightarrow> lookup n f = Inr t \<Longrightarrow> mode_of t \<noteq> ModeDir \<Longrightarrow>
   readableAt n' q = readableAt n q"
proof (induction n f arbitrary: n' q rule: remove_at.induct)
  case (2 r w es x)
  then show ?case
    by (cases q)
      (auto simp: readableAt_Cons readableAt_Nil readableAt_nondir map_of_filter_neq
            split: option.splits if_splits node.splits list.splits)
next
  case (3 r w es x y ys)
  then show ?case
    by (cases q)
      (auto simp: readableAt_Cons readableAt_Nil map_of_replace
            split: option.splits if_splits sum.splits)
qed simp_all


lemma os_Lstat_Inr: "(os_Lstat fs q = Inr info) = (modeAt fs q = Some (Mode info))"
  by (cases info) (auto simp: os_Lstat_def modeAt_def split: sum.splits)

lemma os_Lstat_Inl: "os_Lstat fs q = Inl e \<Longrightarrow> modeAt fs q = None \<and> (\<exists>no. e = PathError q no)"
  by (auto simp: os_Lstat_def modeAt_def split: sum.splits)

lemma os_Lstat_None: "modeAt fs q = None \<Longrightarrow> \<exists>no. os_Lstat fs q = Inl (PathError q no)"
  by (auto simp: os_Lstat_def modeAt_def split: sum.splits)

lemma fileExists_mode: "fileExists fs q = (\<exists>m. modeAt fs q = Some m \<and> m \<noteq> ModeDir)"
  by (auto simp: fileExists_def os_Stat_def os_Lstat_def modeAt_def IsDir_def split: sum.splits)

lemma modeAt_append:
  "modeAt fs (p @ q) = (case lookup fs p of Inl e \<Rightarrow> None | Inr n \<Rightarrow> modeAt n q)"
  by (simp add: modeAt_def lookup_append split: sum.splits)

lemma modeAt_prefix: "modeAt fs (p @ q) = Some m \<Longrightarrow> \<exists>m'. modeAt fs p = Some m'"
  apply (cases "lookup fs p")
   apply (simp add: modeAt_append)
  apply (simp add: modeAt_def)
  done

lemma modeAt_below_dir:
  "modeAt fs (p @ q) = Some m \<Longrightarrow> q \<noteq> [] \<Longrightarrow> modeAt fs p = Some ModeDir"
  apply (auto simp: modeAt_append split: sum.splits)
  subgoal for n by (cases n; cases q) (auto simp: modeAt_def)
  done

lemma readDirNames_Inr:
  "readDirNames fs q = Inr names \<Longrightarrow>
     readableAt fs q \<and> modeAt fs q = Some ModeDir \<and> (\<forall>n. (n \<in> set names) = (modeAt fs (q @ [n]) \<noteq> None))"
  apply (auto simp: readDirNames_def readableAt_def modeAt_def lookup_append
         split: sum.splits node.splits if_splits option.splits)
   apply (metis map_of_eq_None_iff option.distinct(1) fst_conv image_iff)
  apply (metis map_of_eq_None_iff option.distinct(1) image_iff)
  done

lemma readDirNames_readable:
  "modeAt fs q = Some ModeDir \<Longrightarrow> readableAt fs q \<Longrightarrow> \<exists>names. readDirNames fs q = Inr names"
  by (auto simp: readDirNames_def readableAt_def modeAt_def split: sum.splits node.splits)

lemma readDirNames_unreadable:
  "modeAt fs q = Some ModeDir \<Longrightarrow> \<not> readableAt fs q \<Longrightarrow> readDirNames fs q = Inl (PathError q EACCES)"
  by (auto simp: readDirNames_def readableAt_def modeAt_def split: sum.splits node.splits)

lemma removeIfExists_cases:
  assumes "removeIfExists fs f = (e, fs')"
  shows "(e \<noteq> None \<and> fs' = fs) \<or> (e = None \<and> \<not> fileExists fs f \<and> fs' = fs) \<or>
         (e = None \<and> fileExists fs f \<and> (\<forall>q. modeAt fs' q = (if q = f then None else modeAt fs q))
            \<and> (\<forall>q. readableAt fs' q = readableAt fs q))"
proof (cases "fileExists fs f")
  case False
  with assms show ?thesis by (simp add: removeIfExists_def)
next
  case True
  then obtain t where t: "lookup fs f = Inr t" "mode_of t \<noteq> ModeDir"
    by (auto simp: fileExists_mode modeAt_def split: sum.splits)
  show ?thesis
  proof (cases "remove_at fs f")
    case (Inl a)
    with assms True show ?thesis by (auto simp add: removeIfExists_def os_Remove_def)
  next
    case (Inr n')
    with assms True have "e = None" "fs' = n'" by (simp_all add: removeIfExists_def os_Remove_def)
    with True remove_at_mode[OF Inr t] remove_at_readable[OF Inr t] show ?thesis by simp
  qed
qed

lemma shrunk_refl: "shrunk keep fs fs"
  by (simp add: shrunk_def)

lemma shrunk_fileExists: "shrunk keep fs0 fs \<Longrightarrow> fileExists fs q \<Longrightarrow> fileExists fs0 q"
  by (auto simp: shrunk_def fileExists_mode) (metis option.distinct(1))

lemma shrunk_conflictIn: "shrunk keep fs0 fs \<Longrightarrow> conflictIn fs d c \<Longrightarrow> conflictIn fs0 d c"
  by (auto simp: conflictIn_def dest: shrunk_fileExists)

lemma shrunk_removable: "shrunk keep fs0 fs \<Longrightarrow> removable keep fs q \<Longrightarrow> removable keep fs0 q"
  unfolding removable_def by (blast dest: shrunk_conflictIn)

lemma shrunk_trans: "shrunk keep a b \<Longrightarrow> shrunk keep b c \<Longrightarrow> shrunk keep a c"
  unfolding shrunk_def
  apply (intro conjI allI)
   apply simp
  subgoal for q
    using shrunk_removable[of keep a b q, unfolded shrunk_def]
    by (metis)
  done


lemma removeIfExists_shrunk:
  assumes "c \<in> set knownStyleConflicts" "conflictIn fs d c"
    and "removeIfExists fs (d @ [unselected keep c]) = (e, fs1)"
  shows "shrunk keep fs fs1"
proof -
  have rem: "removable keep fs (d @ [unselected keep c])"
    unfolding removable_def using assms(1,2) by blast
  from removeIfExists_cases[OF assms(3)]
  consider "fs1 = fs"
    | "(\<forall>q. modeAt fs1 q = (if q = d @ [unselected keep c] then None else modeAt fs q))
         \<and> (\<forall>q. readableAt fs1 q = readableAt fs q)"
    by blast
  then show ?thesis
  proof cases
    case 1
    then show ?thesis by (simp add: shrunk_refl)
  next
    case 2
    then show ?thesis unfolding shrunk_def using rem by simp
  qed
qed

lemma fileToRemove_eq:
  "(if keep then d @ [GoZeroFlat c] else d @ [GoZeroStyle c]) = d @ [unselected keep c]"
  by (simp add: unselected_def)

lemma cleanupPairs_Cons:
  "cleanupPairs keep d (c # rest) fs =
     (if conflictIn fs d c then
        (case removeIfExists fs (d @ [unselected keep c]) of
           (Some err, fs') \<Rightarrow> (Some err, fs')
         | (None, fs') \<Rightarrow> cleanupPairs keep d rest fs')
      else cleanupPairs keep d rest fs)"
  by (simp add: Let_def conflictIn_def fileToRemove_eq)

declare cleanupPairs.simps(2) [simp del]

lemma cleanupPairs_shrunk:
  "set cs \<subseteq> set knownStyleConflicts \<Longrightarrow> cleanupPairs keep d cs fs = (e, fs') \<Longrightarrow> shrunk keep fs fs'"
proof (induction cs arbitrary: fs)
  case Nil
  then show ?case by (simp add: shrunk_refl)
next
  case (Cons c cs)
  show ?case
  proof (cases "conflictIn fs d c")
    case False
    with Cons show ?thesis by (simp add: cleanupPairs_Cons)
  next
    case True
    obtain e1 fs1 where r: "removeIfExists fs (d @ [unselected keep c]) = (e1, fs1)"
      by (cases "removeIfExists fs (d @ [unselected keep c])") auto
    have s1: "shrunk keep fs fs1"
      using removeIfExists_shrunk[OF _ True r] Cons.prems(1) by simp
    show ?thesis
    proof (cases e1)
      case None
      with Cons.prems True r have "cleanupPairs keep d cs fs1 = (e, fs')"
        by (simp add: cleanupPairs_Cons)
      with Cons.IH[of fs1] Cons.prems(1) have "shrunk keep fs1 fs'" by simp
      with s1 show ?thesis by (rule shrunk_trans)
    next
      case (Some a)
      with Cons.prems True r have "fs' = fs1" by (simp add: cleanupPairs_Cons)
      with s1 show ?thesis by simp
    qed
  qed
qed

lemma unselected_exists: "conflictIn fs d c \<Longrightarrow> fileExists fs (d @ [unselected keep c])"
  by (simp add: conflictIn_def unselected_def)

lemma conflictIn_unselected: "conflictIn fs d c \<Longrightarrow> modeAt fs (d @ [unselected keep c]) \<noteq> None"
  using unselected_exists[of fs d c keep] by (auto simp: fileExists_mode)

lemma cleanupPairs_noconflict:
  "set cs \<subseteq> set knownStyleConflicts \<Longrightarrow> cleanupPairs keep d cs fs = (None, fs') \<Longrightarrow>
   c \<in> set cs \<Longrightarrow> \<not> conflictIn fs' d c"
proof (induction cs arbitrary: fs)
  case Nil
  then show ?case by simp
next
  case (Cons c0 cs)
  obtain e1 fs1 where r: "removeIfExists fs (d @ [unselected keep c0]) = (e1, fs1)"
    by (cases "removeIfExists fs (d @ [unselected keep c0])") auto
  show ?case
  proof (cases "conflictIn fs d c0")
    case False
    with Cons.prems have rest: "cleanupPairs keep d cs fs = (None, fs')"
      by (simp add: cleanupPairs_Cons)
    from cleanupPairs_shrunk[OF _ rest] Cons.prems(1) have "shrunk keep fs fs'" by simp
    with False have "\<not> conflictIn fs' d c0" by (blast dest: shrunk_conflictIn)
    with Cons.IH[OF _ rest] Cons.prems show ?thesis by auto
  next
    case True
    with Cons.prems r have e1: "e1 = None" and rest: "cleanupPairs keep d cs fs1 = (None, fs')"
      by (auto simp: cleanupPairs_Cons split: option.splits)
    from removeIfExists_cases[OF r] e1 unselected_exists[OF True, of keep]
    have "modeAt fs1 (d @ [unselected keep c0]) = None" by auto
    then have "\<not> conflictIn fs1 d c0" using conflictIn_unselected by blast
    moreover from cleanupPairs_shrunk[OF _ rest] Cons.prems(1) have "shrunk keep fs1 fs'" by simp
    ultimately have "\<not> conflictIn fs' d c0" by (blast dest: shrunk_conflictIn)
    with Cons.IH[OF _ rest] Cons.prems show ?thesis by auto
  qed
qed

lemma cleanupPairs_quiet:
  "\<forall>c\<in>set cs. \<not> conflictIn fs d c \<Longrightarrow> cleanupPairs keep d cs fs = (None, fs)"
  by (induction cs) (simp_all add: cleanupPairs_Cons)

lemma cleanupVisit_shrunk:
  "cleanupVisit keep q i e st = (r, st') \<Longrightarrow> shrunk keep (fst st) (fst st')"
  by (auto simp: cleanupVisit_def shrunk_refl split: option.splits if_splits prod.splits
           dest: cleanupPairs_shrunk[rotated])

lemma cleanupVisit_noconflict:
  "cleanupVisit keep q (Some i) None st = (None, st') \<Longrightarrow> IsDir i \<Longrightarrow>
   c \<in> set knownStyleConflicts \<Longrightarrow> \<not> conflictIn (fst st') q c"
  by (auto simp: cleanupVisit_def split: prod.splits dest: cleanupPairs_noconflict[rotated])

lemma cleanupVisit_quiet:
  "\<forall>c\<in>set knownStyleConflicts. \<not> conflictIn (fst st) q c \<Longrightarrow>
   cleanupVisit keep q (Some i) None st = (None, st)"
  by (cases st) (auto simp: cleanupVisit_def cleanupPairs_quiet)

lemma walk_names_Cons:
  "walk_names k fn path (name # names) st =
     (case os_Lstat (fst st) (path @ [name]) of
        Inl err \<Rightarrow>
          (case fn (path @ [name]) None (Some err) st of
             (Some e, st') \<Rightarrow> Some (Some e, st')
           | (None, st') \<Rightarrow> walk_names k fn path names st')
      | Inr fileInfo \<Rightarrow>
          (case walk k fn (path @ [name]) fileInfo st of
             None \<Rightarrow> None
           | Some (Some e, st') \<Rightarrow> Some (Some e, st')
           | Some (None, st') \<Rightarrow> walk_names k fn path names st'))"
  by (simp add: Let_def)

declare walk_names.simps(2) [simp del]

lemma walk_names_invariant:
  fixes fn :: "'a WalkFunc"
  assumes step: "\<And>q i e st r st'. P st \<Longrightarrow> fn q i e st = (r, st') \<Longrightarrow> P st'"
    and W: "\<And>q info st r st'. walk k fn q info st = Some (r, st') \<Longrightarrow> P st \<Longrightarrow> P st'"
  shows "walk_names k fn q names st = Some (r, st') \<Longrightarrow> P st \<Longrightarrow> P st'"
proof (induction names arbitrary: st)
  case Nil
  then show ?case by simp
next
  case (Cons name names)
  show ?case
  proof (cases "os_Lstat (fst st) (q @ [name])")
    case (Inl err)
    obtain e1 st1 where v: "fn (q @ [name]) None (Some err) st = (e1, st1)"
      by (cases "fn (q @ [name]) None (Some err) st") auto
    have P1: "P st1" using step[OF Cons.prems(2) v] .
    show ?thesis
    proof (cases e1)
      case None
      with Cons.prems(1) Inl v have "walk_names k fn q names st1 = Some (r, st')"
        by (simp add: walk_names_Cons)
      then show ?thesis using Cons.IH P1 by blast
    next
      case (Some a)
      with Cons.prems(1) Inl v have "st' = st1" by (simp add: walk_names_Cons)
      with P1 show ?thesis by simp
    qed
  next
    case (Inr fileInfo)
    with Cons.prems(1) obtain e1 st1 where w: "walk k fn (q @ [name]) fileInfo st = Some (e1, st1)"
      by (cases "walk k fn (q @ [name]) fileInfo st") (auto simp: walk_names_Cons)
    have P1: "P st1" using W[OF w Cons.prems(2)] .
    show ?thesis
    proof (cases e1)
      case None
      with Cons.prems(1) Inr w have "walk_names k fn q names st1 = Some (r, st')"
        by (simp add: walk_names_Cons)
      then show ?thesis using Cons.IH P1 by blast
    next
      case (Some a)
      with Cons.prems(1) Inr w have "st' = st1" by (simp add: walk_names_Cons)
      with P1 show ?thesis by simp
    qed
  qed
qed

lemma walk_invariant:
  fixes fn :: "'a WalkFunc"
  assumes step: "\<And>q i e st r st'. P st \<Longrightarrow> fn q i e st = (r, st') \<Longrightarrow> P st'"
  shows "walk k fn q info st = Some (r, st') \<Longrightarrow> P st \<Longrightarrow> P st'"
proof (induction k arbitrary: q info st r st')
  case 0
  then show ?case by simp
next
  case (Suc k)
  show ?case
  proof (cases "IsDir info")
    case False
    with Suc.prems(1) have "fn q (Some info) None st = (r, st')" by simp
    with step Suc.prems(2) show ?thesis by blast
  next
    case True
    show ?thesis
    proof (cases "readDirNames (fst st) q")
      case (Inl err)
      with Suc.prems(1) True have "fn q (Some info) (Some err) st = (r, st')" by simp
      with step Suc.prems(2) show ?thesis by blast
    next
      case (Inr names)
      obtain e1 st1 where v: "fn q (Some info) None st = (e1, st1)"
        by (cases "fn q (Some info) None st") auto
      have P1: "P st1" using step[OF Suc.prems(2) v] .
      show ?thesis
      proof (cases e1)
        case None
        with Suc.prems(1) True Inr v have "walk_names k fn q names st1 = Some (r, st')" by simp
        then show ?thesis
          using walk_names_invariant[of P fn k q names st1 r st'] step Suc.IH P1 by blast
      next
        case (Some a)
        with Suc.prems(1) True Inr v have "st' = st1" by simp
        with P1 show ?thesis by simp
      qed
    qed
  qed
qed

section \<open>Lemmas on the walk\<close>

lemma cleanupVisit_err:
  "cleanupVisit keep q info (Some e) st = (if os_IsNotExist e then (None, st) else (Some e, st))"
  by (simp add: cleanupVisit_def)

lemma validateVisit_err: "validateVisit pp q info (Some e) st = (Some e, st)"
  by (simp add: validateVisit_def)

lemma cleanupVisit_nondir:
  "\<not> IsDir i \<Longrightarrow> cleanupVisit keep q (Some i) None st = (None, st)"
  by (simp add: cleanupVisit_def)

lemma walk_names_result:
  fixes fn :: "'a WalkFunc"
  assumes step: "\<And>q i e st r st'. fn q i e st = (r, st') \<Longrightarrow> R r"
    and none: "R None"
    and W: "\<And>q info st r st'. walk k fn q info st = Some (r, st') \<Longrightarrow> R r"
  shows "walk_names k fn q names st = Some (r, st') \<Longrightarrow> R r"
proof (induction names arbitrary: st)
  case Nil
  then show ?case using none by simp
next
  case (Cons name names)
  show ?case
  proof (cases "os_Lstat (fst st) (q @ [name])")
    case (Inl err)
    obtain e1 st1 where v: "fn (q @ [name]) None (Some err) st = (e1, st1)"
      by (cases "fn (q @ [name]) None (Some err) st") auto
    show ?thesis
    proof (cases e1)
      case None
      with Cons.prems(1) Inl v have "walk_names k fn q names st1 = Some (r, st')"
        by (simp add: walk_names_Cons)
      then show ?thesis using Cons.IH by blast
    next
      case (Some a)
      with Cons.prems(1) Inl v have "r = e1" by (simp add: walk_names_Cons)
      with step[OF v] show ?thesis by simp
    qed
  next
    case (Inr fileInfo)
    with Cons.prems(1) obtain e1 st1 where w: "walk k fn (q @ [name]) fileInfo st = Some (e1, st1)"
      by (cases "walk k fn (q @ [name]) fileInfo st") (auto simp: walk_names_Cons)
    show ?thesis
    proof (cases e1)
      case None
      with Cons.prems(1) Inr w have "walk_names k fn q names st1 = Some (r, st')"
        by (simp add: walk_names_Cons)
      then show ?thesis using Cons.IH by blast
    next
      case (Some a)
      with Cons.prems(1) Inr w have "r = e1" by (simp add: walk_names_Cons)
      with W[OF w] show ?thesis by simp
    qed
  qed
qed

lemma walk_result:
  fixes fn :: "'a WalkFunc"
  assumes step: "\<And>q i e st r st'. fn q i e st = (r, st') \<Longrightarrow> R r"
    and none: "R None"
  shows "walk k fn q info st = Some (r, st') \<Longrightarrow> R r"
proof (induction k arbitrary: q info st r st')
  case 0
  then show ?case by simp
next
  case (Suc k)
  show ?case
  proof (cases "IsDir info")
    case False
    with Suc.prems(1) have "fn q (Some info) None st = (r, st')" by simp
    with step show ?thesis by blast
  next
    case True
    show ?thesis
    proof (cases "readDirNames (fst st) q")
      case (Inl err)
      with Suc.prems(1) True have "fn q (Some info) (Some err) st = (r, st')" by simp
      with step show ?thesis by blast
    next
      case (Inr names)
      obtain e1 st1 where v: "fn q (Some info) None st = (e1, st1)"
        by (cases "fn q (Some info) None st") auto
      show ?thesis
      proof (cases e1)
        case None
        with Suc.prems(1) True Inr v have "walk_names k fn q names st1 = Some (r, st')" by simp
        then show ?thesis
          using walk_names_result[of fn R k q names st1 r st'] step none Suc.IH by blast
      next
        case (Some a)
        with Suc.prems(1) True Inr v have "r = e1" by simp
        with step[OF v] show ?thesis by simp
      qed
    qed
  qed
qed

lemma cleanupPairs_error:
  "cleanupPairs keep d cs fs = (Some e, fs') \<Longrightarrow> \<exists>f x. e = RemoveFailed f x"
proof (induction cs arbitrary: fs)
  case Nil
  then show ?case by simp
next
  case (Cons c cs)
  then show ?case
    by (auto simp: cleanupPairs_Cons removeIfExists_def
             split: if_splits prod.splits option.splits sum.splits)
qed

lemma cleanupVisit_no_ENOENT:
  "cleanupVisit keep q i e st = (r, st') \<Longrightarrow> r \<noteq> Some (PathError q' ENOENT)"
  by (auto simp: cleanupVisit_def split: option.splits if_splits prod.splits
           dest: cleanupPairs_error)

lemma filepath_Walk_missing:
  "os_Lstat (fst st) root = Inl e \<Longrightarrow> filepath_Walk root fn st = Some (fn root None (Some e) st)"
  by (simp add: filepath_Walk_def)

lemma CleanupStyleConflicts_no_ENOENT:
  "CleanupStyleConflicts fs p style \<noteq> Some (Some (PathError q' ENOENT), fs')"
proof
  assume a: "CleanupStyleConflicts fs p style = Some (Some (PathError q' ENOENT), fs')"
  let ?fn = "cleanupVisit (style = ''go_zero'')"
  from a obtain st' where w: "filepath_Walk p ?fn (fs, ()) = Some (Some (PathError q' ENOENT), st')"
    by (auto simp: CleanupStyleConflicts_def)
  show False
  proof (cases "os_Lstat fs p")
    case (Inl e)
    with w show ?thesis
      using cleanupVisit_no_ENOENT[of "style = ''go_zero''" p None "Some e" "(fs, ())"]
      by (auto simp: filepath_Walk_def)
  next
    case (Inr info)
    with w have "walk (Suc (height fs)) ?fn p info (fs, ()) = Some (Some (PathError q' ENOENT), st')"
      by (simp add: filepath_Walk_def)
    from walk_result[of ?fn "\<lambda>r. r \<noteq> Some (PathError q' ENOENT)", OF _ _ this]
    show ?thesis using cleanupVisit_no_ENOENT by blast
  qed
qed

lemma subfs_refl: "subfs fs fs"
  by (simp add: subfs_def)

lemma subfs_trans: "subfs a b \<Longrightarrow> subfs b c \<Longrightarrow> subfs a c"
  by (simp add: subfs_def)

lemma shrunk_mode: "shrunk keep fs0 fs \<Longrightarrow> modeAt fs q = Some m \<Longrightarrow> modeAt fs0 q = Some m"
  unfolding shrunk_def by (metis option.distinct(1))

lemma shrunk_subfs: "shrunk keep fs0 fs \<Longrightarrow> subfs fs fs0"
  unfolding subfs_def using shrunk_mode by fastforce

lemma bounded_subfs: "subfs fs' fs \<Longrightarrow> bounded fs q k \<Longrightarrow> bounded fs' q k"
  by (simp add: subfs_def bounded_def)

lemma bounded_child: "bounded fs q (Suc k) \<Longrightarrow> bounded fs (q @ [n]) k"
  unfolding bounded_def
proof (intro allI impI)
  fix r
  assume b: "\<forall>r. modeAt fs (q @ r) \<noteq> None \<longrightarrow> length r < Suc k"
    and m: "modeAt fs ((q @ [n]) @ r) \<noteq> None"
  from m have "modeAt fs (q @ (n # r)) \<noteq> None" by simp
  with b have "length (n # r) < Suc k" by blast
  then show "length r < k" by simp
qed

lemma bounded_zero: "bounded fs q 0 \<Longrightarrow> modeAt fs q = None"
  unfolding bounded_def by (metis append_Nil2 less_nat_zero_code)

lemma height_child:
  "(x, c) \<in> set es \<Longrightarrow> height c \<le> foldr max (map (\<lambda>e. height (snd e)) es) 0"
  by (induction es) auto

lemma lookup_height: "lookup fs r = Inr n \<Longrightarrow> length r \<le> height fs"
proof (induction fs r rule: lookup.induct)
  case (1 n)
  then show ?case by simp
next
  case (2 r w es x xs)
  then obtain c where c: "map_of es x = Some c" "lookup c xs = Inr n"
    by (auto split: option.splits)
  with 2 have "length xs \<le> height c" by simp
  moreover from c(1) have "(x, c) \<in> set es" by (rule map_of_SomeD)
  then have "height c \<le> foldr max (map (\<lambda>e. height (snd e)) es) 0" by (rule height_child)
  ultimately show ?case by simp
qed simp_all

lemma bounded_height: "bounded fs q (Suc (height fs))"
  unfolding bounded_def
proof (intro allI impI)
  fix r
  assume "modeAt fs (q @ r) \<noteq> None"
  then obtain n where "lookup fs (q @ r) = Inr n"
    by (auto simp: modeAt_def split: sum.splits)
  then have "length (q @ r) \<le> height fs" by (rule lookup_height)
  then show "length r < Suc (height fs)" by simp
qed

lemma walk_names_returns:
  fixes fn :: "'a WalkFunc"
  assumes mono: "\<And>q i e st r st'. fn q i e st = (r, st') \<Longrightarrow> subfs (fst st') (fst st)"
    and W: "\<And>q info st. bounded (fst st) q k \<Longrightarrow> os_Lstat (fst st) q = Inr info \<Longrightarrow>
              walk k fn q info st \<noteq> None"
  shows "(\<forall>n. bounded (fst st) (q @ [n]) k) \<Longrightarrow> walk_names k fn q names st \<noteq> None"
proof (induction names arbitrary: st)
  case Nil
  then show ?case by simp
next
  case (Cons name names)
  show ?case
  proof (cases "os_Lstat (fst st) (q @ [name])")
    case (Inl err)
    obtain e1 st1 where v: "fn (q @ [name]) None (Some err) st = (e1, st1)"
      by (cases "fn (q @ [name]) None (Some err) st") auto
    from mono[OF v] Cons.prems have b1: "\<forall>n. bounded (fst st1) (q @ [n]) k"
      by (blast intro: bounded_subfs)
    show ?thesis
    proof (cases e1)
      case None
      with Inl v Cons.IH[OF b1] show ?thesis by (simp add: walk_names_Cons)
    next
      case (Some a)
      with Inl v show ?thesis by (simp add: walk_names_Cons)
    qed
  next
    case (Inr fileInfo)
    from W[OF _ Inr] Cons.prems obtain e1 st1
      where w: "walk k fn (q @ [name]) fileInfo st = Some (e1, st1)"
      by (cases "walk k fn (q @ [name]) fileInfo st") auto
    have "subfs (fst st1) (fst st)"
      using walk_invariant[of "\<lambda>s. subfs (fst s) (fst st)" fn k "q @ [name]" fileInfo st e1 st1]
        mono w subfs_refl subfs_trans by blast
    with Cons.prems have b1: "\<forall>n. bounded (fst st1) (q @ [n]) k"
      by (blast intro: bounded_subfs)
    show ?thesis
    proof (cases e1)
      case None
      with Inr w Cons.IH[OF b1] show ?thesis by (simp add: walk_names_Cons)
    next
      case (Some a)
      with Inr w show ?thesis by (simp add: walk_names_Cons)
    qed
  qed
qed

lemma walk_returns:
  fixes fn :: "'a WalkFunc"
  assumes mono: "\<And>q i e st r st'. fn q i e st = (r, st') \<Longrightarrow> subfs (fst st') (fst st)"
  shows "bounded (fst st) q k \<Longrightarrow> os_Lstat (fst st) q = Inr info \<Longrightarrow> walk k fn q info st \<noteq> None"
proof (induction k arbitrary: q info st)
  case 0
  then show ?case using bounded_zero[of "fst st" q] by (simp add: os_Lstat_Inr)
next
  case (Suc k)
  show ?case
  proof (cases "IsDir info")
    case False
    then show ?thesis by simp
  next
    case True
    show ?thesis
    proof (cases "readDirNames (fst st) q")
      case (Inl err)
      with True show ?thesis by simp
    next
      case (Inr names)
      obtain e1 st1 where v: "fn q (Some info) None st = (e1, st1)"
        by (cases "fn q (Some info) None st") auto
      from Suc.prems(1) have "\<forall>n. bounded (fst st) (q @ [n]) k"
        by (blast intro: bounded_child)
      with mono[OF v] have b1: "\<forall>n. bounded (fst st1) (q @ [n]) k"
        by (blast intro: bounded_subfs)
      show ?thesis
      proof (cases e1)
        case None
        have "walk_names k fn q names st1 \<noteq> None"
          using walk_names_returns[of fn k st1 q names] mono Suc.IH b1 by blast
        with None True Inr v show ?thesis by simp
      next
        case (Some a)
        with True Inr v show ?thesis by simp
      qed
    qed
  qed
qed

lemma filepath_Walk_returns:
  fixes fn :: "'a WalkFunc"
  assumes mono: "\<And>q i e st r st'. fn q i e st = (r, st') \<Longrightarrow> subfs (fst st') (fst st)"
  shows "filepath_Walk root fn st \<noteq> None"
proof (cases "os_Lstat (fst st) root")
  case (Inl e)
  then show ?thesis by (simp add: filepath_Walk_def)
next
  case (Inr info)
  from walk_returns[of fn st root "Suc (height (fst st))" info, OF mono bounded_height Inr]
  show ?thesis using Inr by (simp add: filepath_Walk_def)
qed

lemma cleanupVisit_subfs:
  "cleanupVisit keep q i e st = (r, st') \<Longrightarrow> subfs (fst st') (fst st)"
  by (blast dest: cleanupVisit_shrunk shrunk_subfs)

lemma validateVisit_fs:
  "validateVisit pp q i e st = (r, st') \<Longrightarrow> fst st' = fst st"
  by (auto simp: validateVisit_def split: option.splits if_splits)

lemma validateVisit_subfs:
  "validateVisit pp q i e st = (r, st') \<Longrightarrow> subfs (fst st') (fst st)"
  by (simp add: validateVisit_fs subfs_refl)

lemma CleanupStyleConflicts_returns: "\<exists>r fs'. CleanupStyleConflicts fs p style = Some (r, fs')"
  using filepath_Walk_returns[of "cleanupVisit (style = ''go_zero'')" p "(fs, ())"] cleanupVisit_subfs
  by (auto simp: CleanupStyleConflicts_def)

lemma ValidateNoStyleConflicts_returns: "\<exists>r. ValidateNoStyleConflicts fs p = Some r"
  using filepath_Walk_returns[of "validateVisit p" p "(fs, [])"] validateVisit_subfs
  by (auto simp: ValidateNoStyleConflicts_def split: option.splits prod.splits)

lemma shrunk_readable: "shrunk keep fs0 fs \<Longrightarrow> readableAt fs q = readableAt fs0 q"
  by (simp add: shrunk_def)

lemma settled_shrunk: "shrunk keep a b \<Longrightarrow> settled a q \<Longrightarrow> settled b q"
  unfolding settled_def
  by (metis shrunk_mode shrunk_readable shrunk_conflictIn)

lemma settled_missing: "modeAt fs q = None \<Longrightarrow> settled fs q"
  unfolding settled_def using modeAt_prefix by fastforce

lemma settled_nondir: "modeAt fs q = Some m \<Longrightarrow> m \<noteq> ModeDir \<Longrightarrow> settled fs q"
  unfolding settled_def
  by (metis append_Nil2 modeAt_below_dir option.inject)

lemma settled_dir:
  assumes "readableAt fs q" "\<forall>c\<in>set knownStyleConflicts. \<not> conflictIn fs q c"
    and "\<forall>n. modeAt fs (q @ [n]) \<noteq> None \<longrightarrow> settled fs (q @ [n])"
  shows "settled fs q"
  unfolding settled_def
proof (intro allI impI)
  fix r
  assume d: "modeAt fs (q @ r) = Some ModeDir"
  show "readableAt fs (q @ r) \<and> (\<forall>c\<in>set knownStyleConflicts. \<not> conflictIn fs (q @ r) c)"
  proof (cases r)
    case Nil
    with assms show ?thesis by simp
  next
    case (Cons n r')
    with d have d': "modeAt fs ((q @ [n]) @ r') = Some ModeDir" by simp
    then have "modeAt fs (q @ [n]) \<noteq> None" using modeAt_prefix by fastforce
    with assms(3) have "settled fs (q @ [n])" by blast
    with d' have "readableAt fs ((q @ [n]) @ r') \<and>
        (\<forall>c\<in>set knownStyleConflicts. \<not> conflictIn fs ((q @ [n]) @ r') c)"
      unfolding settled_def by blast
    with Cons show ?thesis by simp
  qed
qed

lemma settled_child: "settled fs q \<Longrightarrow> settled fs (q @ r)"
  unfolding settled_def by (metis append_assoc)

lemma readDirNames_Inl_dir:
  "modeAt fs q = Some ModeDir \<Longrightarrow> readDirNames fs q = Inl e \<Longrightarrow> e = PathError q EACCES"
  by (auto simp: readDirNames_def modeAt_def split: sum.splits node.splits if_splits)

lemma cleanup_walk_shrunk:
  "walk k (cleanupVisit keep) q info st = Some (r, st') \<Longrightarrow> shrunk keep (fst st) (fst st')"
  using walk_invariant[of "\<lambda>s. shrunk keep (fst st) (fst s)" "cleanupVisit keep" k q info st r st']
    cleanupVisit_shrunk shrunk_refl shrunk_trans by blast

lemma cleanup_walk_names_shrunk:
  "walk_names k (cleanupVisit keep) q names st = Some (r, st') \<Longrightarrow> shrunk keep (fst st) (fst st')"
  using walk_names_invariant[of "\<lambda>s. shrunk keep (fst st) (fst s)" "cleanupVisit keep" k q names st r st']
    cleanupVisit_shrunk shrunk_refl shrunk_trans cleanup_walk_shrunk by blast

lemma cleanup_walk_names_settled:
  assumes W: "\<And>q info st st'. walk k (cleanupVisit keep) q info st = Some (None, st') \<Longrightarrow>
                os_Lstat (fst st) q = Inr info \<Longrightarrow> settled (fst st') q"
  shows "walk_names k (cleanupVisit keep) q names st = Some (None, st') \<Longrightarrow>
         n \<in> set names \<Longrightarrow> settled (fst st') (q @ [n])"
proof (induction names arbitrary: st)
  case Nil
  then show ?case by simp
next
  case (Cons name names)
  show ?case
  proof (cases "os_Lstat (fst st) (q @ [name])")
    case (Inl err)
    obtain e1 st1 where v: "cleanupVisit keep (q @ [name]) None (Some err) st = (e1, st1)"
      by (cases "cleanupVisit keep (q @ [name]) None (Some err) st") auto
    from v have st1: "st1 = st" by (auto simp: cleanupVisit_err split: if_splits)
    from Cons.prems(1) Inl v have e1: "e1 = None"
      by (cases e1) (auto simp: walk_names_Cons)
    with Cons.prems(1) Inl v st1 have rest: "walk_names k (cleanupVisit keep) q names st = Some (None, st')"
      by (simp add: walk_names_Cons)
    show ?thesis
    proof (cases "n \<in> set names")
      case True
      with Cons.IH[OF rest] show ?thesis by simp
    next
      case False
      with Cons.prems(2) have "n = name" by simp
      moreover from Inl have "modeAt (fst st) (q @ [name]) = None" by (blast dest: os_Lstat_Inl)
      ultimately have "modeAt (fst st') (q @ [n]) = None"
        using cleanup_walk_names_shrunk[OF rest] shrunk_mode
        by (metis not_Some_eq)
      then show ?thesis by (rule settled_missing)
    qed
  next
    case (Inr fileInfo)
    with Cons.prems(1) obtain e1 st1
      where w: "walk k (cleanupVisit keep) (q @ [name]) fileInfo st = Some (e1, st1)"
      by (cases "walk k (cleanupVisit keep) (q @ [name]) fileInfo st") (auto simp: walk_names_Cons)
    from Cons.prems(1) Inr w have e1: "e1 = None"
      by (cases e1) (auto simp: walk_names_Cons)
    with Cons.prems(1) Inr w have rest: "walk_names k (cleanupVisit keep) q names st1 = Some (None, st')"
      by (simp add: walk_names_Cons)
    show ?thesis
    proof (cases "n \<in> set names")
      case True
      with Cons.IH[OF rest] show ?thesis by simp
    next
      case False
      with Cons.prems(2) have n: "n = name" by simp
      from W[OF w[unfolded e1] Inr] have "settled (fst st1) (q @ [name])" .
      with cleanup_walk_names_shrunk[OF rest] n show ?thesis by (blast intro: settled_shrunk)
    qed
  qed
qed

lemma cleanup_walk_settled:
  "walk k (cleanupVisit keep) q info st = Some (None, st') \<Longrightarrow>
   os_Lstat (fst st) q = Inr info \<Longrightarrow> settled (fst st') q"
proof (induction k arbitrary: q info st st')
  case 0
  then show ?case by simp
next
  case (Suc k)
  from Suc.prems(2) have m: "modeAt (fst st) q = Some (Mode info)" by (simp add: os_Lstat_Inr)
  show ?case
  proof (cases "IsDir info")
    case False
    with Suc.prems(1) have "st' = st" by (simp add: cleanupVisit_nondir)
    with m False show ?thesis by (auto simp: IsDir_def intro: settled_nondir)
  next
    case True
    with m have md: "modeAt (fst st) q = Some ModeDir" by (simp add: IsDir_def)
    show ?thesis
    proof (cases "readDirNames (fst st) q")
      case (Inl err)
      with readDirNames_Inl_dir[OF md] have "err = PathError q EACCES" by simp
      with Suc.prems(1) True Inl show ?thesis by (simp add: cleanupVisit_err)
    next
      case (Inr names)
      obtain e1 st1 where v: "cleanupVisit keep q (Some info) None st = (e1, st1)"
        by (cases "cleanupVisit keep q (Some info) None st") auto
      from Suc.prems(1) True Inr v have e1: "e1 = None" by (cases e1) auto
      with Suc.prems(1) True Inr v
      have rest: "walk_names k (cleanupVisit keep) q names st1 = Some (None, st')" by simp
      have s01: "shrunk keep (fst st) (fst st1)" using cleanupVisit_shrunk[OF v] .
      have s1': "shrunk keep (fst st1) (fst st')" using cleanup_walk_names_shrunk[OF rest] .
      have s0': "shrunk keep (fst st) (fst st')" using s01 s1' by (rule shrunk_trans)
      from readDirNames_Inr[OF Inr] have rd: "readableAt (fst st) q"
        and nm: "\<And>n. (n \<in> set names) = (modeAt (fst st) (q @ [n]) \<noteq> None)" by auto
      have r': "readableAt (fst st') q" using rd shrunk_readable[OF s0'] by simp
      have nc: "\<forall>c\<in>set knownStyleConflicts. \<not> conflictIn (fst st') q c"
        using cleanupVisit_noconflict[OF v[unfolded e1] True] shrunk_conflictIn[OF s1'] by blast
      have ch: "\<forall>n. modeAt (fst st') (q @ [n]) \<noteq> None \<longrightarrow> settled (fst st') (q @ [n])"
      proof (intro allI impI)
        fix n
        assume "modeAt (fst st') (q @ [n]) \<noteq> None"
        then have "modeAt (fst st) (q @ [n]) \<noteq> None" using shrunk_mode[OF s0'] by fastforce
        then have "n \<in> set names" using nm by simp
        then show "settled (fst st') (q @ [n])"
          using cleanup_walk_names_settled[of k keep q names st1 st' n] Suc.IH rest by blast
      qed
      show ?thesis using settled_dir[OF r' nc ch] .
    qed
  qed
qed

lemma cleanup_walk_names_quiet:
  assumes W: "\<And>q info. settled fs q \<Longrightarrow> bounded fs q k \<Longrightarrow> os_Lstat fs q = Inr info \<Longrightarrow>
                walk k (cleanupVisit keep) q info (fs, ()) = Some (None, (fs, ()))"
  shows "\<forall>n\<in>set names. modeAt fs (q @ [n]) \<noteq> None \<and> settled fs (q @ [n]) \<and> bounded fs (q @ [n]) k \<Longrightarrow>
         walk_names k (cleanupVisit keep) q names (fs, ()) = Some (None, (fs, ()))"
proof (induction names)
  case Nil
  then show ?case by simp
next
  case (Cons name names)
  then have ex: "modeAt fs (q @ [name]) \<noteq> None" and se: "settled fs (q @ [name])"
    and bo: "bounded fs (q @ [name]) k" by simp_all
  from ex obtain fi where fi: "os_Lstat fs (q @ [name]) = Inr fi"
    by (cases "os_Lstat fs (q @ [name])") (auto dest: os_Lstat_Inl)
  from W[OF se bo fi] Cons fi show ?case by (simp add: walk_names_Cons)
qed

lemma cleanup_walk_quiet:
  "settled fs q \<Longrightarrow> bounded fs q k \<Longrightarrow> os_Lstat fs q = Inr info \<Longrightarrow>
   walk k (cleanupVisit keep) q info (fs, ()) = Some (None, (fs, ()))"
proof (induction k arbitrary: q info)
  case 0
  then show ?case using bounded_zero[of fs q] by (simp add: os_Lstat_Inr)
next
  case (Suc k)
  from Suc.prems(3) have m: "modeAt fs q = Some (Mode info)" by (simp add: os_Lstat_Inr)
  show ?case
  proof (cases "IsDir info")
    case False
    then show ?thesis by (simp add: cleanupVisit_nondir)
  next
    case True
    with m have md: "modeAt fs (q @ []) = Some ModeDir" by (simp add: IsDir_def)
    with Suc.prems(1) have rd: "readableAt fs q"
      and nc: "\<forall>c\<in>set knownStyleConflicts. \<not> conflictIn fs q c"
      unfolding settled_def by (metis append_Nil2)+
    from readDirNames_readable[of fs q] md rd obtain names where names: "readDirNames fs q = Inr names"
      by auto
    have v: "cleanupVisit keep q (Some info) None (fs, ()) = (None, (fs, ()))"
      using cleanupVisit_quiet[of "(fs, ())" q keep info] nc by simp
    have "\<forall>n\<in>set names. modeAt fs (q @ [n]) \<noteq> None \<and> settled fs (q @ [n]) \<and> bounded fs (q @ [n]) k"
      using readDirNames_Inr[OF names] settled_child[OF Suc.prems(1)] bounded_child[OF Suc.prems(2)]
      by blast
    then have "walk_names k (cleanupVisit keep) q names (fs, ()) = Some (None, (fs, ()))"
      using cleanup_walk_names_quiet[of fs k keep names q] Suc.IH by blast
    with True names v show ?thesis by simp
  qed
qed

lemma validatePairs_eq:
  "validatePairs pp q fs cs acc = acc @ map (conflictLine pp q) (filter (conflictIn fs q) cs)"
  by (induction cs arbitrary: acc) (simp_all add: Let_def conflictIn_def)

lemma validateVisit_nondir: "\<not> IsDir i \<Longrightarrow> validateVisit pp q (Some i) None st = (None, st)"
  by (simp add: validateVisit_def)

lemma validateVisit_dir:
  "IsDir i \<Longrightarrow> validateVisit pp q (Some i) None (fs, acc) =
     (None, (fs, acc @ map (conflictLine pp q) (filter (conflictIn fs q) knownStyleConflicts)))"
  by (simp add: validateVisit_def validatePairs_eq)

lemma allReadable_child: "allReadable fs q \<Longrightarrow> allReadable fs (q @ r)"
  unfolding allReadable_def by (metis append_assoc)

lemma conflictLinesBelow_nondir:
  "modeAt fs q = Some m \<Longrightarrow> m \<noteq> ModeDir \<Longrightarrow> conflictLinesBelow fs pp q = {}"
  unfolding conflictLinesBelow_def
  by (auto) (metis append_Nil2 modeAt_below_dir option.inject)

lemma conflictLinesBelow_dir:
  assumes names: "\<And>n. (n \<in> set names) = (modeAt fs (q @ [n]) \<noteq> None)"
    and md: "modeAt fs q = Some ModeDir"
  shows "conflictLinesBelow fs pp q =
           set (map (conflictLine pp q) (filter (conflictIn fs q) knownStyleConflicts))
           \<union> (\<Union>n\<in>set names. conflictLinesBelow fs pp (q @ [n]))"
proof (intro set_eqI iffI)
  fix x
  assume "x \<in> conflictLinesBelow fs pp q"
  then obtain r c where x: "x = conflictLine pp (q @ r) c" and d: "modeAt fs (q @ r) = Some ModeDir"
    and c: "c \<in> set knownStyleConflicts" "conflictIn fs (q @ r) c"
    unfolding conflictLinesBelow_def by blast
  show "x \<in> set (map (conflictLine pp q) (filter (conflictIn fs q) knownStyleConflicts))
           \<union> (\<Union>n\<in>set names. conflictLinesBelow fs pp (q @ [n]))"
  proof (cases r)
    case Nil
    with x c show ?thesis by auto
  next
    case (Cons n r')
    with d have d': "modeAt fs ((q @ [n]) @ r') = Some ModeDir" by simp
    then have "modeAt fs (q @ [n]) \<noteq> None" using modeAt_prefix by fastforce
    then have "n \<in> set names" using names by simp
    moreover have "x \<in> conflictLinesBelow fs pp (q @ [n])"
      unfolding conflictLinesBelow_def using x d' c Cons by auto
    ultimately show ?thesis by blast
  qed
next
  fix x
  assume "x \<in> set (map (conflictLine pp q) (filter (conflictIn fs q) knownStyleConflicts))
           \<union> (\<Union>n\<in>set names. conflictLinesBelow fs pp (q @ [n]))"
  then consider c where "x = conflictLine pp q c" "c \<in> set knownStyleConflicts" "conflictIn fs q c"
    | n where "x \<in> conflictLinesBelow fs pp (q @ [n])"
    by auto
  then show "x \<in> conflictLinesBelow fs pp q"
  proof cases
    case 1
    then show ?thesis unfolding conflictLinesBelow_def using md
      by (intro CollectI exI[of _ "[]"] exI[of _ c]) simp
  next
    case 2
    then obtain r c where "x = conflictLine pp ((q @ [n]) @ r) c"
      "modeAt fs ((q @ [n]) @ r) = Some ModeDir" "c \<in> set knownStyleConflicts"
      "conflictIn fs ((q @ [n]) @ r) c"
      unfolding conflictLinesBelow_def by blast
    then show ?thesis unfolding conflictLinesBelow_def
      by (intro CollectI exI[of _ "n # r"] exI[of _ c]) simp
  qed
qed

lemma validate_walk_names:
  assumes W: "\<And>q info acc. allReadable fs q \<Longrightarrow> bounded fs q k \<Longrightarrow> os_Lstat fs q = Inr info \<Longrightarrow>
                \<exists>ds. walk k (validateVisit pp) q info (fs, acc) = Some (None, (fs, acc @ ds))
                     \<and> set ds = conflictLinesBelow fs pp q"
  shows "\<forall>n\<in>set names. modeAt fs (q @ [n]) \<noteq> None \<and> allReadable fs (q @ [n]) \<and> bounded fs (q @ [n]) k \<Longrightarrow>
         \<exists>ds. walk_names k (validateVisit pp) q names (fs, acc) = Some (None, (fs, acc @ ds))
              \<and> set ds = (\<Union>n\<in>set names. conflictLinesBelow fs pp (q @ [n]))"
proof (induction names arbitrary: acc)
  case Nil
  then show ?case by simp
next
  case (Cons name names)
  then have ex: "modeAt fs (q @ [name]) \<noteq> None" and se: "allReadable fs (q @ [name])"
    and bo: "bounded fs (q @ [name]) k" by simp_all
  from ex obtain fi where fi: "os_Lstat fs (q @ [name]) = Inr fi"
    by (cases "os_Lstat fs (q @ [name])") (auto dest: os_Lstat_Inl)
  from W[OF se bo fi, of acc] obtain ds1
    where w1: "walk k (validateVisit pp) (q @ [name]) fi (fs, acc) = Some (None, (fs, acc @ ds1))"
      and s1: "set ds1 = conflictLinesBelow fs pp (q @ [name])" by blast
  from Cons.IH[of "acc @ ds1"] Cons.prems obtain ds2
    where w2: "walk_names k (validateVisit pp) q names (fs, acc @ ds1) = Some (None, (fs, (acc @ ds1) @ ds2))"
      and s2: "set ds2 = (\<Union>n\<in>set names. conflictLinesBelow fs pp (q @ [n]))" by auto
  have "walk_names k (validateVisit pp) q (name # names) (fs, acc) = Some (None, (fs, acc @ (ds1 @ ds2)))"
    using fi w1 w2 by (simp add: walk_names_Cons)
  moreover have "set (ds1 @ ds2) = (\<Union>n\<in>set (name # names). conflictLinesBelow fs pp (q @ [n]))"
    using s1 s2 by simp
  ultimately show ?case by blast
qed

lemma validate_walk:
  "allReadable fs q \<Longrightarrow> bounded fs q k \<Longrightarrow> os_Lstat fs q = Inr info \<Longrightarrow>
   \<exists>ds. walk k (validateVisit pp) q info (fs, acc) = Some (None, (fs, acc @ ds))
        \<and> set ds = conflictLinesBelow fs pp q"
proof (induction k arbitrary: q info acc)
  case 0
  then show ?case using bounded_zero[of fs q] by (simp add: os_Lstat_Inr)
next
  case (Suc k)
  from Suc.prems(3) have m: "modeAt fs q = Some (Mode info)" by (simp add: os_Lstat_Inr)
  show ?case
  proof (cases "IsDir info")
    case False
    with m have "conflictLinesBelow fs pp q = {}"
      using conflictLinesBelow_nondir[of fs q "Mode info" pp] by (simp add: IsDir_def)
    with False show ?thesis by (simp add: validateVisit_nondir)
  next
    case True
    with m have md: "modeAt fs q = Some ModeDir" by (simp add: IsDir_def)
    with Suc.prems(1) have rd: "readableAt fs q"
      unfolding allReadable_def by (metis append_Nil2)
    from readDirNames_readable[OF md rd] obtain names where names: "readDirNames fs q = Inr names"
      by auto
    let ?here = "map (conflictLine pp q) (filter (conflictIn fs q) knownStyleConflicts)"
    have nm: "\<And>n. (n \<in> set names) = (modeAt fs (q @ [n]) \<noteq> None)"
      using readDirNames_Inr[OF names] by blast
    have "\<forall>n\<in>set names. modeAt fs (q @ [n]) \<noteq> None \<and> allReadable fs (q @ [n]) \<and> bounded fs (q @ [n]) k"
      using nm allReadable_child[OF Suc.prems(1)] bounded_child[OF Suc.prems(2)] by blast
    then obtain ds where
      w: "walk_names k (validateVisit pp) q names (fs, acc @ ?here) = Some (None, (fs, (acc @ ?here) @ ds))"
      and s: "set ds = (\<Union>n\<in>set names. conflictLinesBelow fs pp (q @ [n]))"
      using validate_walk_names[of fs k pp names q "acc @ ?here"] Suc.IH by blast
    have "walk (Suc k) (validateVisit pp) q info (fs, acc) = Some (None, (fs, acc @ (?here @ ds)))"
      using True names w by (simp add: validateVisit_dir)
    moreover have "set (?here @ ds) = conflictLinesBelow fs pp q"
      using conflictLinesBelow_dir[of names fs q pp, OF nm md] s by simp
    ultimately show ?thesis by blast
  qed
qed

text \<open>The depth budget is no part of the result: a walk that returns with some budget
  returns the same with every larger one, and with more than the height of the filesystem
  the walks of both visitors return (\<open>CleanupStyleConflicts_returns\<close>,
  \<open>ValidateNoStyleConflicts_returns\<close>).\<close>

lemma walk_names_budget:
  fixes fn :: "'a WalkFunc"
  assumes W: "\<And>q info st r. walk k fn q info st = Some r \<Longrightarrow> walk k' fn q info st = Some r"
  shows "walk_names k fn q names st = Some r \<Longrightarrow> walk_names k' fn q names st = Some r"
proof (induction names arbitrary: st)
  case Nil
  then show ?case by simp
next
  case (Cons name names)
  show ?case
  proof (cases "os_Lstat (fst st) (q @ [name])")
    case (Inl err)
    obtain e1 st1 where v: "fn (q @ [name]) None (Some err) st = (e1, st1)"
      by (cases "fn (q @ [name]) None (Some err) st") auto
    show ?thesis
    proof (cases e1)
      case None
      with Cons.prems Inl v have "walk_names k fn q names st1 = Some r"
        by (simp add: walk_names_Cons)
      from Cons.IH[OF this] None Inl v show ?thesis by (simp add: walk_names_Cons)
    next
      case (Some a)
      with Cons.prems Inl v show ?thesis by (auto simp: walk_names_Cons)
    qed
  next
    case (Inr fileInfo)
    with Cons.prems obtain e1 st1 where w: "walk k fn (q @ [name]) fileInfo st = Some (e1, st1)"
      by (cases "walk k fn (q @ [name]) fileInfo st") (auto simp: walk_names_Cons)
    from W[OF w] have w': "walk k' fn (q @ [name]) fileInfo st = Some (e1, st1)" .
    show ?thesis
    proof (cases e1)
      case None
      with Cons.prems Inr w have "walk_names k fn q names st1 = Some r"
        by (simp add: walk_names_Cons)
      from Cons.IH[OF this] None Inr w' show ?thesis by (simp add: walk_names_Cons)
    next
      case (Some a)
      with Cons.prems Inr w w' show ?thesis by (auto simp: walk_names_Cons)
    qed
  qed
qed

lemma walk_budget:
  fixes fn :: "'a WalkFunc"
  shows "walk k fn q info st = Some r \<Longrightarrow> k \<le> k' \<Longrightarrow> walk k' fn q info st = Some r"
proof (induction k arbitrary: k' q info st r)
  case 0
  then show ?case by simp
next
  case (Suc k)
  from Suc.prems(2) obtain j where j: "k' = Suc j" "k \<le> j" by (cases k') auto
  have N: "\<And>names st r. walk_names k fn q names st = Some r \<Longrightarrow> walk_names j fn q names st = Some r"
    using walk_names_budget[of k fn j] Suc.IH j(2) by blast
  show ?case
  proof (cases "IsDir info")
    case False
    with Suc.prems(1) j show ?thesis by simp
  next
    case True
    show ?thesis
    proof (cases "readDirNames (fst st) q")
      case (Inl err)
      with Suc.prems(1) True j show ?thesis by simp
    next
      case (Inr names)
      obtain e1 st1 where v: "fn q (Some info) None st = (e1, st1)"
        by (cases "fn q (Some info) None st") auto
      show ?thesis
      proof (cases e1)
        case None
        with Suc.prems(1) True Inr v have "walk_names k fn q names st1 = Some r" by simp
        from N[OF this] None True Inr v j show ?thesis by simp
      next
        case (Some a)
        with Suc.prems(1) True Inr v j show ?thesis by auto
      qed
    qed
  qed
qed

lemma filepath_Walk_budget:
  fixes fn :: "'a WalkFunc"
  assumes "filepath_Walk root fn st = Some r" "os_Lstat (fst st) root = Inr info"
    and "height (fst st) < k"
  shows "walk k fn root info st = Some r"
proof -
  from assms(1,2) have "walk (Suc (height (fst st))) fn root info st = Some r"
    by (simp add: filepath_Walk_def del: walk.simps)
  from walk_budget[OF this] assms(3) show ?thesis by simp
qed

section \<open>Lemmas on the two operations\<close>

lemma removable_nondir: "removable keep fs q \<Longrightarrow> fileExists fs q"
  unfolding removable_def using unselected_exists by blast

lemma shrunk_dir: "shrunk keep fs0 fs \<Longrightarrow> modeAt fs0 q = Some ModeDir \<Longrightarrow> modeAt fs q = Some ModeDir"
  unfolding shrunk_def using removable_nondir[of keep fs0 q]
  by (metis fileExists_mode option.inject)

lemma settled_allReadable: "settled fs q \<Longrightarrow> allReadable fs q"
  by (simp add: settled_def allReadable_def)

lemma settled_no_lines: "settled fs q \<Longrightarrow> conflictLinesBelow fs pp q = {}"
  unfolding settled_def conflictLinesBelow_def by blast

lemma allReadable_shrunk: "shrunk keep a b \<Longrightarrow> allReadable b q \<Longrightarrow> allReadable a q"
  unfolding allReadable_def by (metis shrunk_dir shrunk_readable)

lemma Cleanup_missing_root:
  "os_Lstat fs p = Inl e \<Longrightarrow>
   CleanupStyleConflicts fs p style = Some (if os_IsNotExist e then None else Some e, fs)"
  by (simp add: CleanupStyleConflicts_def filepath_Walk_def cleanupVisit_err)

lemma drop_unit_state:
  fixes x :: "(error option \<times> node \<times> unit) option"
  shows "(map_option (\<lambda>(err, st). (err, fst st)) x = Some (r, fs')) = (x = Some (r, (fs', ())))"
  by (cases x) auto

lemma Cleanup_existing_root:
  assumes "os_Lstat fs p = Inr info"
  shows "(CleanupStyleConflicts fs p style = Some (r, fs')) =
   (walk (Suc (height fs)) (cleanupVisit (style = ''go_zero'')) p info (fs, ()) = Some (r, (fs', ())))"
proof -
  have "CleanupStyleConflicts fs p style =
      map_option (\<lambda>(err, st). (err, fst st))
        (walk (Suc (height fs)) (cleanupVisit (style = ''go_zero'')) p info (fs, ()))"
    using assms by (simp add: CleanupStyleConflicts_def filepath_Walk_def del: walk.simps)
  then show ?thesis by (simp only: drop_unit_state)
qed

lemma Cleanup_shrunk:
  assumes "CleanupStyleConflicts fs p style = Some (r, fs')"
  shows "shrunk (style = ''go_zero'') fs fs'"
proof (cases "os_Lstat fs p")
  case (Inl e)
  with assms show ?thesis by (simp add: Cleanup_missing_root shrunk_refl)
next
  case (Inr info)
  with assms cleanup_walk_shrunk[of "Suc (height fs)" "style = ''go_zero''" p info "(fs, ())" r "(fs', ())"]
  show ?thesis by (simp add: Cleanup_existing_root[OF Inr] del: walk.simps)
qed

lemma Cleanup_settled:
  assumes "CleanupStyleConflicts fs p style = Some (None, fs')"
  shows "settled fs' p"
proof (cases "os_Lstat fs p")
  case (Inl e)
  with assms have "fs' = fs" by (simp add: Cleanup_missing_root)
  moreover from Inl have "modeAt fs p = None" by (blast dest: os_Lstat_Inl)
  ultimately show ?thesis by (simp add: settled_missing)
next
  case (Inr info)
  with assms cleanup_walk_settled[of "Suc (height fs)" "style = ''go_zero''" p info "(fs, ())" "(fs', ())"]
  show ?thesis by (simp add: Cleanup_existing_root[OF Inr] del: walk.simps)
qed

lemma Cleanup_root_kept:
  assumes "CleanupStyleConflicts fs p style = Some (r, fs')" "os_Lstat fs p = Inr info"
  shows "os_Lstat fs' p = Inr info"
proof (cases "IsDir info")
  case True
  with assms(2) have "modeAt fs p = Some ModeDir" by (simp add: os_Lstat_Inr IsDir_def)
  from shrunk_dir[OF Cleanup_shrunk[OF assms(1)] this] True show ?thesis
    by (simp add: os_Lstat_Inr IsDir_def)
next
  case False
  with assms have "fs' = fs"
    by (simp add: Cleanup_existing_root[OF assms(2)] cleanupVisit_nondir)
  with assms(2) show ?thesis by simp
qed

lemma Validate_missing_root:
  "os_Lstat fs p = Inl e \<Longrightarrow> ValidateNoStyleConflicts fs p = Some (Some e)"
  by (simp add: ValidateNoStyleConflicts_def filepath_Walk_def validateVisit_err)

lemma Validate_traversed:
  assumes "os_Lstat fs p = Inr info" "allReadable fs p"
  shows "\<exists>ds. set ds = conflictLinesBelow fs p p \<and>
           ValidateNoStyleConflicts fs p =
             Some (if ds = [] then None else Some (StyleConflicts (conflictsMessage ds)))"
proof -
  from validate_walk[OF assms(2) bounded_height assms(1), of p "[]"] obtain ds
    where w: "walk (Suc (height fs)) (validateVisit p) p info (fs, []) = Some (None, (fs, ds))"
      and s: "set ds = conflictLinesBelow fs p p" by auto
  from w assms(1) have "ValidateNoStyleConflicts fs p =
      Some (if ds = [] then None else Some (StyleConflicts (conflictsMessage ds)))"
    by (simp add: ValidateNoStyleConflicts_def filepath_Walk_def del: walk.simps)
  with s show ?thesis by blast
qed

lemma allReadable_nondir: "modeAt fs q = Some m \<Longrightarrow> m \<noteq> ModeDir \<Longrightarrow> allReadable fs q"
  unfolding allReadable_def
  by (metis append_Nil2 modeAt_below_dir option.inject)

lemma allReadable_dir:
  assumes "readableAt fs q"
    and "\<forall>n. modeAt fs (q @ [n]) \<noteq> None \<longrightarrow> allReadable fs (q @ [n])"
  shows "allReadable fs q"
  unfolding allReadable_def
proof (intro allI impI)
  fix r
  assume d: "modeAt fs (q @ r) = Some ModeDir"
  show "readableAt fs (q @ r)"
  proof (cases r)
    case Nil
    with assms show ?thesis by simp
  next
    case (Cons n r')
    with d have d': "modeAt fs ((q @ [n]) @ r') = Some ModeDir" by simp
    then have "modeAt fs (q @ [n]) \<noteq> None" using modeAt_prefix by fastforce
    with assms(2) have "allReadable fs (q @ [n])" by blast
    with d' have "readableAt fs ((q @ [n]) @ r')" unfolding allReadable_def by blast
    with Cons show ?thesis by simp
  qed
qed

lemma validate_walk_names_unreadable:
  assumes W: "\<And>q info acc. bounded fs q k \<Longrightarrow> os_Lstat fs q = Inr info \<Longrightarrow> \<not> allReadable fs q \<Longrightarrow>
                \<exists>q' st'. walk k (validateVisit pp) q info (fs, acc) = Some (Some (PathError q' EACCES), st')"
  shows "\<forall>n\<in>set names. modeAt fs (q @ [n]) \<noteq> None \<and> bounded fs (q @ [n]) k \<Longrightarrow>
         \<exists>n\<in>set names. \<not> allReadable fs (q @ [n]) \<Longrightarrow>
         \<exists>q' st'. walk_names k (validateVisit pp) q names (fs, acc) = Some (Some (PathError q' EACCES), st')"
proof (induction names arbitrary: acc)
  case Nil
  then show ?case by simp
next
  case (Cons name names)
  then have ex: "modeAt fs (q @ [name]) \<noteq> None" and bo: "bounded fs (q @ [name]) k" by simp_all
  from ex obtain fi where fi: "os_Lstat fs (q @ [name]) = Inr fi"
    by (cases "os_Lstat fs (q @ [name])") (auto dest: os_Lstat_Inl)
  show ?case
  proof (cases "allReadable fs (q @ [name])")
    case False
    from W[OF bo fi False, of acc] fi show ?thesis by (auto simp: walk_names_Cons)
  next
    case True
    from validate_walk[OF True bo fi, of pp acc] obtain ds
      where w1: "walk k (validateVisit pp) (q @ [name]) fi (fs, acc) = Some (None, (fs, acc @ ds))"
      by blast
    from True Cons.prems have "\<exists>n\<in>set names. \<not> allReadable fs (q @ [n])" by auto
    with Cons.IH[of "acc @ ds"] Cons.prems(1) obtain q' st'
      where "walk_names k (validateVisit pp) q names (fs, acc @ ds) = Some (Some (PathError q' EACCES), st')"
      by auto
    with fi w1 show ?thesis by (simp add: walk_names_Cons)
  qed
qed

lemma validate_walk_unreadable:
  "bounded fs q k \<Longrightarrow> os_Lstat fs q = Inr info \<Longrightarrow> \<not> allReadable fs q \<Longrightarrow>
   \<exists>q' st'. walk k (validateVisit pp) q info (fs, acc) = Some (Some (PathError q' EACCES), st')"
proof (induction k arbitrary: q info acc)
  case 0
  then show ?case using bounded_zero[of fs q] by (simp add: os_Lstat_Inr)
next
  case (Suc k)
  from Suc.prems(2) have m: "modeAt fs q = Some (Mode info)" by (simp add: os_Lstat_Inr)
  with Suc.prems(3) allReadable_nondir[of fs q "Mode info"] have md: "modeAt fs q = Some ModeDir"
    by auto
  then have dir: "IsDir info" using m by (simp add: IsDir_def)
  show ?case
  proof (cases "readableAt fs q")
    case False
    from readDirNames_unreadable[OF md False] dir show ?thesis
      by (simp add: validateVisit_err)
  next
    case True
    from readDirNames_readable[OF md True] obtain names where names: "readDirNames fs q = Inr names"
      by auto
    let ?here = "map (conflictLine pp q) (filter (conflictIn fs q) knownStyleConflicts)"
    have nm: "\<And>n. (n \<in> set names) = (modeAt fs (q @ [n]) \<noteq> None)"
      using readDirNames_Inr[OF names] by blast
    have all: "\<forall>n\<in>set names. modeAt fs (q @ [n]) \<noteq> None \<and> bounded fs (q @ [n]) k"
      using nm bounded_child[OF Suc.prems(1)] by blast
    have bad: "\<exists>n\<in>set names. \<not> allReadable fs (q @ [n])"
      using allReadable_dir[OF True] Suc.prems(3) nm by blast
    from validate_walk_names_unreadable[of fs k pp names q "acc @ ?here"] Suc.IH all bad
    obtain q' st' where
      "walk_names k (validateVisit pp) q names (fs, acc @ ?here) = Some (Some (PathError q' EACCES), st')"
      by blast
    with dir names show ?thesis by (simp add: validateVisit_dir)
  qed
qed

lemma Validate_unreadable:
  assumes "os_Lstat fs p = Inr info" "\<not> allReadable fs p"
  shows "\<exists>q'. ValidateNoStyleConflicts fs p = Some (Some (PathError q' EACCES))"
proof -
  from validate_walk_unreadable[OF bounded_height assms, of p "[]"] obtain q' st'
    where "walk (Suc (height fs)) (validateVisit p) p info (fs, []) = Some (Some (PathError q' EACCES), st')"
    by blast
  with assms(1) show ?thesis
    by (simp add: ValidateNoStyleConflicts_def filepath_Walk_def del: walk.simps)
qed

lemma Cleanup_allReadable:
  assumes "CleanupStyleConflicts fs p style = Some (None, fs')"
  shows "allReadable fs p"
  using allReadable_shrunk[OF Cleanup_shrunk[OF assms] settled_allReadable[OF Cleanup_settled[OF assms]]] .

lemma example_go_zero:
  "CleanupStyleConflicts exampleProject [] ''go_zero'' = Some (None, exampleCleanedGoZero)"
  by code_simp

lemma selected_not_unselected:
  "c \<in> set knownStyleConflicts \<Longrightarrow> c' \<in> set knownStyleConflicts \<Longrightarrow>
   selected keep c \<noteq> unselected keep c'"
  by (simp add: knownStyleConflicts_def selected_def unselected_def)

lemma shrunk_selected:
  assumes "shrunk keep fs fs'" "c \<in> set knownStyleConflicts"
  shows "modeAt fs' (d @ [selected keep c]) = modeAt fs (d @ [selected keep c])"
proof -
  have "\<not> removable keep fs (d @ [selected keep c])"
    unfolding removable_def using selected_not_unselected[OF assms(2)] by auto
  with assms(1) show ?thesis unfolding shrunk_def by blast
qed


lemma example_pair:
  "\<lparr>GoZeroStyle = ''service_context.go'', GoZeroFlat = ''servicecontext.go''\<rparr>
     \<in> set knownStyleConflicts"
  by (simp add: knownStyleConflicts_def)

lemma example_validate:
  "ValidateNoStyleConflicts exampleProject [] =
     Some (Some (StyleConflicts
       (''style conflicts detected:'' @ [CHR 0x0A] @
        ''internal/svc: both service_context.go and servicecontext.go exist'')))"
  by code_simp

lemma example_root: "os_Lstat exampleProject [] = Inr (FileInfo ModeDir)"
  by code_simp



section \<open>The claims\<close>

subsection \<open>Detection and suggestion\<close>

lemma detectInDirs_find:
  "detectInDirs fs c dirs =
     map_option snd (find (\<lambda>(f, tag). fileExists fs f)
       (concat (map (\<lambda>d. [(d @ [GoZeroStyle c], ''go_zero''), (d @ [GoZeroFlat c], ''gozero'')]) dirs)))"
  by (induction dirs) (simp_all add: Let_def)

text \<open>
  Claim C7.  \<^verbatim>\<open>DetectExistingStyle\<close> returns the tag of the first candidate file that exists,
  the candidates taken pair by pair in table order, within a pair directory by directory
  (\<^verbatim>\<open>internal/svc\<close>, \<^verbatim>\<open>internal/handler\<close>, \<^verbatim>\<open>internal/logic\<close>), and within a directory the
  snake\_case name before the flat name; it returns the empty string when none exists.
\<close>

theorem DetectExistingStyle_first_found:
  "DetectExistingStyle fs projectPath =
     (case find (\<lambda>(f, tag). fileExists fs f)
        [(projectPath @ [''internal'', ''svc'', ''service_context.go''], ''go_zero''),
         (projectPath @ [''internal'', ''svc'', ''servicecontext.go''], ''gozero''),
         (projectPath @ [''internal'', ''handler'', ''service_context.go''], ''go_zero''),
         (projectPath @ [''internal'', ''handler'', ''servicecontext.go''], ''gozero''),
         (projectPath @ [''internal'', ''logic'', ''service_context.go''], ''go_zero''),
         (projectPath @ [''internal'', ''logic'', ''servicecontext.go''], ''gozero'')]
      of None \<Rightarrow> [] | Some (f, tag) \<Rightarrow> tag)"
  by (simp add: DetectExistingStyle_def knownStyleConflicts_def detectInDirs_find commonDirs_def)

text \<open>
  Claim C8, as amended.  \<^verbatim>\<open>SuggestStyleBasedOnExisting\<close> returns the detected style exactly
  when it is not empty and the default otherwise; its result is empty exactly when nothing
  is detected and the default itself is empty.
\<close>

theorem SuggestStyleBasedOnExisting_result:
  "SuggestStyleBasedOnExisting fs projectPath defaultStyle =
     (if DetectExistingStyle fs projectPath \<noteq> [] then DetectExistingStyle fs projectPath
      else defaultStyle)
   \<and> (SuggestStyleBasedOnExisting fs projectPath defaultStyle = [])
       = (DetectExistingStyle fs projectPath = [] \<and> defaultStyle = [])"
  by (simp add: SuggestStyleBasedOnExisting_def Let_def)

text \<open>The claim as written says the result is never empty: with an empty default and an
  empty project it is.\<close>

theorem SuggestStyleBasedOnExisting_empty_counterexample:
  "DetectExistingStyle (Dir True True []) [] = [] \<and>
   SuggestStyleBasedOnExisting (Dir True True []) [] [] = []"
  by (simp add: SuggestStyleBasedOnExisting_def DetectExistingStyle_def knownStyleConflicts_def
      commonDirs_def fileExists_def os_Stat_def os_Lstat_def Let_def)

subsection \<open>The existence check\<close>

text \<open>
  Claim C9, as amended.  \<^verbatim>\<open>fileExists\<close> is true exactly when the path resolves to an entry
  that is not a directory: a regular file, and also a named pipe, a socket or a device.
  Every failure of the lookup, not-found included, gives false.
\<close>

theorem fileExists_table:
  "fileExists fs p =
     (case lookup fs p of
        Inl e \<Rightarrow> False
      | Inr Regular \<Rightarrow> True
      | Inr Special \<Rightarrow> True
      | Inr (Dir r w es) \<Rightarrow> False)"
  by (simp add: fileExists_def os_Stat_def os_Lstat_def IsDir_def split: sum.splits node.splits)

text \<open>The claim as written says true only for regular files: an entry that is neither a
  directory nor a regular file passes the check.\<close>

theorem fileExists_regular_counterexample:
  "fileExists (Dir True True [(''pipe'', Special)]) [''pipe''] = True \<and>
   os_Stat (Dir True True [(''pipe'', Special)]) [''pipe''] = Inr (FileInfo ModeIrregular) \<and>
   IsRegular (FileInfo ModeIrregular) = False"
  by (simp add: fileExists_def os_Stat_def os_Lstat_def IsDir_def IsRegular_def)

subsection \<open>Unrecognised styles\<close>




subsection \<open>What a cleanup leaves behind\<close>

text \<open>
  Claim C1, as amended.  After \<^verbatim>\<open>CleanupStyleConflicts\<close> returns without error, no directory
  at or below the project path holds both names of a known pair, and
  \<^verbatim>\<open>ValidateNoStyleConflicts\<close> run on the filesystem it left succeeds exactly when the project
  path exists.
\<close>

theorem CleanupStyleConflicts_then_validate:
  assumes "CleanupStyleConflicts fs projectPath style = Some (None, fs')"
  shows "(\<forall>d c. modeAt fs' (projectPath @ d) = Some ModeDir \<longrightarrow> c \<in> set knownStyleConflicts \<longrightarrow>
            \<not> (fileExists fs' (projectPath @ d @ [GoZeroStyle c]) \<and>
               fileExists fs' (projectPath @ d @ [GoZeroFlat c])))
       \<and> (ValidateNoStyleConflicts fs' projectPath = Some None)
           = (\<exists>info. os_Lstat fs projectPath = Inr info)"
proof (intro conjI)
  from Cleanup_settled[OF assms]
  show "\<forall>d c. modeAt fs' (projectPath @ d) = Some ModeDir \<longrightarrow> c \<in> set knownStyleConflicts \<longrightarrow>
            \<not> (fileExists fs' (projectPath @ d @ [GoZeroStyle c]) \<and>
               fileExists fs' (projectPath @ d @ [GoZeroFlat c]))"
    unfolding settled_def conflictIn_def by simp
next
  show "(ValidateNoStyleConflicts fs' projectPath = Some None)
           = (\<exists>info. os_Lstat fs projectPath = Inr info)"
  proof (cases "os_Lstat fs projectPath")
    case (Inl e)
    with assms have "fs' = fs" by (simp add: Cleanup_missing_root)
    with Inl show ?thesis by (simp add: Validate_missing_root)
  next
    case (Inr info)
    from Cleanup_root_kept[OF assms Inr] have l: "os_Lstat fs' projectPath = Inr info" .
    from Validate_traversed[OF l settled_allReadable[OF Cleanup_settled[OF assms]]]
      settled_no_lines[OF Cleanup_settled[OF assms], of projectPath]
    have "ValidateNoStyleConflicts fs' projectPath = Some None" by auto
    with Inr show ?thesis by simp
  qed
qed

theorem CleanupStyleConflicts_then_validate_witness:
  "CleanupStyleConflicts exampleProject [] ''go_zero'' = Some (None, exampleCleanedGoZero) \<and>
   modeAt exampleCleanedGoZero [''internal'', ''svc''] = Some ModeDir \<and>
   \<not> (fileExists exampleCleanedGoZero [''internal'', ''svc'', ''service_context.go''] \<and>
      fileExists exampleCleanedGoZero [''internal'', ''svc'', ''servicecontext.go'']) \<and>
   ValidateNoStyleConflicts exampleCleanedGoZero [] = Some None"
proof -
  have d: "modeAt exampleCleanedGoZero ([] @ [''internal'', ''svc'']) = Some ModeDir"
    by code_simp
  have c: "\<lparr>GoZeroStyle = ''service_context.go'', GoZeroFlat = ''servicecontext.go''\<rparr>
             \<in> set knownStyleConflicts"
    by (simp add: knownStyleConflicts_def)
  have l: "os_Lstat exampleProject [] = Inr (FileInfo ModeDir)"
    by code_simp
  from CleanupStyleConflicts_then_validate [OF example_go_zero] d c l example_go_zero
  show ?thesis by fastforce
qed

text \<open>The claim as written promises that the validation succeeds after every cleanup that
  returned no error.  On a project path that does not exist the cleanup absorbs the
  not-found error of the walk and returns \<^verbatim>\<open>nil\<close>, and the validation returns that error.\<close>

theorem CleanupStyleConflicts_validate_counterexample:
  "CleanupStyleConflicts (Dir True True []) [''gone''] ''go_zero'' = Some (None, Dir True True []) \<and>
   ValidateNoStyleConflicts (Dir True True []) [''gone''] = Some (Some (PathError [''gone''] ENOENT))"
  by code_simp




text \<open>
  Claim C5.  A second \<^verbatim>\<open>CleanupStyleConflicts\<close> with the same style, run on what a first one
  that returned no error left behind, returns no error and leaves the filesystem as it
  found it.
\<close>

theorem CleanupStyleConflicts_idempotent:
  assumes "CleanupStyleConflicts fs projectPath style = Some (None, fs')"
  shows "CleanupStyleConflicts fs' projectPath style = Some (None, fs')"
proof (cases "os_Lstat fs projectPath")
  case (Inl e)
  with assms have "fs' = fs" by (simp add: Cleanup_missing_root)
  with assms show ?thesis by simp
next
  case (Inr info)
  from Cleanup_root_kept[OF assms Inr] have l: "os_Lstat fs' projectPath = Inr info" .
  from cleanup_walk_quiet[OF Cleanup_settled[OF assms] bounded_height l]
  show ?thesis by (simp only: Cleanup_existing_root[OF l])
qed

theorem CleanupStyleConflicts_idempotent_witness:
  "CleanupStyleConflicts exampleProject [] ''go_zero'' = Some (None, exampleCleanedGoZero) \<and>
   CleanupStyleConflicts exampleCleanedGoZero [] ''go_zero'' = Some (None, exampleCleanedGoZero)"
  using CleanupStyleConflicts_idempotent [OF example_go_zero] example_go_zero by simp

text \<open>
  Claim C6.  Whatever a run of \<^verbatim>\<open>CleanupStyleConflicts\<close> returns, an entry of the filesystem
  it leaves differs from the one before only by being gone, and then it is the file of the
  style not kept, in a directory where both names of its pair passed the existence check;
  the file of the kept style is what it was, so of a pair in a directory at most one file
  goes.  The re-check before the removal (lines 62 to 66), run where the file no longer
  exists, removes nothing and reports no error.
\<close>

theorem CleanupStyleConflicts_removes_only_unselected:
  assumes "CleanupStyleConflicts fs projectPath style = Some (r, fs')"
  shows "(\<forall>q. modeAt fs' q = modeAt fs q \<or>
             (modeAt fs' q = None \<and>
              (\<exists>d c. c \<in> set knownStyleConflicts \<and>
                 q = d @ [if style = ''go_zero'' then GoZeroFlat c else GoZeroStyle c] \<and>
                 fileExists fs (d @ [GoZeroStyle c]) \<and> fileExists fs (d @ [GoZeroFlat c]))))
       \<and> (\<forall>d c. c \<in> set knownStyleConflicts \<longrightarrow>
             modeAt fs' (d @ [if style = ''go_zero'' then GoZeroStyle c else GoZeroFlat c])
               = modeAt fs (d @ [if style = ''go_zero'' then GoZeroStyle c else GoZeroFlat c]))
       \<and> (\<forall>d c. c \<in> set knownStyleConflicts \<longrightarrow>
             \<not> (modeAt fs' (d @ [GoZeroStyle c]) \<noteq> modeAt fs (d @ [GoZeroStyle c]) \<and>
                modeAt fs' (d @ [GoZeroFlat c]) \<noteq> modeAt fs (d @ [GoZeroFlat c])))
       \<and> (\<forall>fs0 f. \<not> fileExists fs0 f \<longrightarrow> removeIfExists fs0 f = (None, fs0))"
proof (intro conjI)
  from Cleanup_shrunk[OF assms]
  show "\<forall>q. modeAt fs' q = modeAt fs q \<or>
             (modeAt fs' q = None \<and>
              (\<exists>d c. c \<in> set knownStyleConflicts \<and>
                 q = d @ [if style = ''go_zero'' then GoZeroFlat c else GoZeroStyle c] \<and>
                 fileExists fs (d @ [GoZeroStyle c]) \<and> fileExists fs (d @ [GoZeroFlat c])))"
    unfolding shrunk_def removable_def unselected_def conflictIn_def by simp
next
  from shrunk_selected[OF Cleanup_shrunk[OF assms]]
  show "\<forall>d c. c \<in> set knownStyleConflicts \<longrightarrow>
             modeAt fs' (d @ [if style = ''go_zero'' then GoZeroStyle c else GoZeroFlat c])
               = modeAt fs (d @ [if style = ''go_zero'' then GoZeroStyle c else GoZeroFlat c])"
    unfolding selected_def by simp
next
  from shrunk_selected[OF Cleanup_shrunk[OF assms]]
  show "\<forall>d c. c \<in> set knownStyleConflicts \<longrightarrow>
             \<not> (modeAt fs' (d @ [GoZeroStyle c]) \<noteq> modeAt fs (d @ [GoZeroStyle c]) \<and>
                modeAt fs' (d @ [GoZeroFlat c]) \<noteq> modeAt fs (d @ [GoZeroFlat c]))"
    unfolding selected_def by (cases "style = ''go_zero''") simp_all
next
  show "\<forall>fs0 f. \<not> fileExists fs0 f \<longrightarrow> removeIfExists fs0 f = (None, fs0)"
    by (simp add: removeIfExists_def)
qed

theorem CleanupStyleConflicts_removes_only_unselected_witness:
  "CleanupStyleConflicts readOnlyProject [] ''gozero'' =
     Some (Some (RemoveFailed [''service_context.go''] (PathError [''service_context.go''] EACCES)),
           readOnlyProject) \<and>
   CleanupStyleConflicts exampleProject [] ''go_zero'' = Some (None, exampleCleanedGoZero) \<and>
   modeAt exampleCleanedGoZero [''internal'', ''svc'', ''service_context.go'']
     = modeAt exampleProject [''internal'', ''svc'', ''service_context.go''] \<and>
   modeAt exampleProject [''internal'', ''svc'', ''service_context.go''] = Some ModeRegular \<and>
   \<not> fileExists exampleCleanedGoZero [''internal'', ''svc'', ''servicecontext.go''] \<and>
   removeIfExists exampleCleanedGoZero [''internal'', ''svc'', ''servicecontext.go'']
     = (None, exampleCleanedGoZero)"
proof -
  have ro: "CleanupStyleConflicts readOnlyProject [] ''gozero'' =
     Some (Some (RemoveFailed [''service_context.go''] (PathError [''service_context.go''] EACCES)),
           readOnlyProject)"
    by code_simp
  have m: "modeAt exampleProject [''internal'', ''svc'', ''service_context.go''] = Some ModeRegular"
    by code_simp
  have g: "\<not> fileExists exampleCleanedGoZero [''internal'', ''svc'', ''servicecontext.go'']"
    by code_simp
  from CleanupStyleConflicts_removes_only_unselected [OF example_go_zero]
  have "\<forall>d c. c \<in> set knownStyleConflicts \<longrightarrow>
             modeAt exampleCleanedGoZero (d @ [GoZeroStyle c]) = modeAt exampleProject (d @ [GoZeroStyle c])"
    by simp
  from this [rule_format, OF example_pair, of "[''internal'', ''svc'']"]
  have k: "modeAt exampleCleanedGoZero ([''internal'', ''svc''] @ [''service_context.go''])
     = modeAt exampleProject ([''internal'', ''svc''] @ [''service_context.go''])"
    by simp
  from CleanupStyleConflicts_removes_only_unselected [OF ro] g
  have s: "removeIfExists exampleCleanedGoZero [''internal'', ''svc'', ''servicecontext.go'']
     = (None, exampleCleanedGoZero)"
    by blast
  from ro example_go_zero k m g s show ?thesis by simp
qed

subsection \<open>Validation and traversal errors\<close>

text \<open>
  Claim C3, as amended.  When the project path exists and every directory at or below it can
  be listed, \<^verbatim>\<open>ValidateNoStyleConflicts\<close> walks the whole tree: the lines it collects are
  exactly the diagnostics of the directories at or below the project path in which both
  names of a known pair exist; with none it returns \<^verbatim>\<open>nil\<close>, otherwise one error whose
  message is the heading followed by the lines, one per line.
\<close>

theorem ValidateNoStyleConflicts_collects_all:
  assumes "os_Lstat fs projectPath = Inr info"
    and "\<forall>r. modeAt fs (projectPath @ r) = Some ModeDir \<longrightarrow> readableAt fs (projectPath @ r)"
  shows "\<exists>ds. set ds =
              {conflictLine projectPath (projectPath @ r) c | r c.
                 modeAt fs (projectPath @ r) = Some ModeDir \<and> c \<in> set knownStyleConflicts \<and>
                 fileExists fs (projectPath @ r @ [GoZeroStyle c]) \<and>
                 fileExists fs (projectPath @ r @ [GoZeroFlat c])}
           \<and> ValidateNoStyleConflicts fs projectPath =
               Some (if ds = [] then None
                     else Some (StyleConflicts
                       (''style conflicts detected:'' @ [CHR 0x0A] @ strings_Join ds [CHR 0x0A])))"
proof -
  from assms(2) have "allReadable fs projectPath" by (simp add: allReadable_def)
  from Validate_traversed[OF assms(1) this]
  show ?thesis
    by (simp only: conflictLinesBelow_def conflictIn_def conflictsMessage_def append_assoc)
qed

theorem ValidateNoStyleConflicts_collects_all_witness:
  "os_Lstat exampleProject [] = Inr (FileInfo ModeDir) \<and>
   ValidateNoStyleConflicts exampleProject [] =
     Some (Some (StyleConflicts
       (''style conflicts detected:'' @ [CHR 0x0A] @
        ''internal/svc: both service_context.go and servicecontext.go exist''))) \<and>
   (\<exists>ds. set ds =
        {conflictLine [] ([] @ r) c | r c.
           modeAt exampleProject ([] @ r) = Some ModeDir \<and> c \<in> set knownStyleConflicts \<and>
           fileExists exampleProject ([] @ r @ [GoZeroStyle c]) \<and>
           fileExists exampleProject ([] @ r @ [GoZeroFlat c])}
      \<and> ValidateNoStyleConflicts exampleProject [] =
          Some (if ds = [] then None
                else Some (StyleConflicts
                  (''style conflicts detected:'' @ [CHR 0x0A] @ strings_Join ds [CHR 0x0A]))))"
proof -
  have r: "\<forall>r. modeAt exampleProject ([] @ r) = Some ModeDir \<longrightarrow> readableAt exampleProject ([] @ r)"
    using Cleanup_allReadable[OF example_go_zero] by (simp add: allReadable_def)
  from ValidateNoStyleConflicts_collects_all [OF example_root r] example_root example_validate
  show ?thesis by blast
qed

text \<open>The claim as written holds for every tree.  Where a directory cannot be listed the
  walk ends with that error and the function returns it: the conflict already found is not
  reported, and a tree without any conflict does not validate.\<close>

theorem ValidateNoStyleConflicts_collects_all_counterexample:
  "fileExists lockedProject [''service_context.go''] \<and>
   fileExists lockedProject [''servicecontext.go''] \<and>
   ValidateNoStyleConflicts lockedProject [] = Some (Some (PathError [''vendor''] EACCES)) \<and>
   ValidateNoStyleConflicts (Dir False True []) [] = Some (Some (PathError [] EACCES))"
  by code_simp

text \<open>
  Claim C4, as amended.  The visitor of \<^verbatim>\<open>CleanupStyleConflicts\<close> absorbs a not-found error
  and returns every other error it is handed; the visitor of \<^verbatim>\<open>ValidateNoStyleConflicts\<close>
  returns every error it is handed, not-found included.  So on a project path whose
  \<^verbatim>\<open>Lstat\<close> fails the cleanup returns \<^verbatim>\<open>nil\<close> for not-found and the error otherwise, and the
  validation returns the error in both cases; the cleanup never returns a not-found path
  error; and a directory at or below an existing project path that cannot be listed makes
  both return an error.
\<close>

theorem traversal_errors:
  "cleanupVisit keep path info (Some err) st =
     (if os_IsNotExist err then (None, st) else (Some err, st))
   \<and> validateVisit projectPath path info (Some err) st' = (Some err, st')
   \<and> (os_Lstat fs projectPath = Inl err \<longrightarrow>
        CleanupStyleConflicts fs projectPath style
          = Some (if os_IsNotExist err then None else Some err, fs) \<and>
        ValidateNoStyleConflicts fs projectPath = Some (Some err))
   \<and> (\<forall>q fs'. CleanupStyleConflicts fs projectPath style \<noteq> Some (Some (PathError q ENOENT), fs'))
   \<and> ((\<exists>i. os_Lstat fs projectPath = Inr i) \<and>
       (\<exists>r. modeAt fs (projectPath @ r) = Some ModeDir \<and> \<not> readableAt fs (projectPath @ r)) \<longrightarrow>
        (\<exists>q. ValidateNoStyleConflicts fs projectPath = Some (Some (PathError q EACCES))) \<and>
        (\<exists>e fs'. CleanupStyleConflicts fs projectPath style = Some (Some e, fs')))"
proof (intro conjI impI)
  show "cleanupVisit keep path info (Some err) st =
     (if os_IsNotExist err then (None, st) else (Some err, st))"
    by (rule cleanupVisit_err)
  show "validateVisit projectPath path info (Some err) st' = (Some err, st')"
    by (rule validateVisit_err)
  show "\<forall>q fs'. CleanupStyleConflicts fs projectPath style \<noteq> Some (Some (PathError q ENOENT), fs')"
    by (simp add: CleanupStyleConflicts_no_ENOENT)
next
  assume "os_Lstat fs projectPath = Inl err"
  then show "CleanupStyleConflicts fs projectPath style
          = Some (if os_IsNotExist err then None else Some err, fs)"
    and "ValidateNoStyleConflicts fs projectPath = Some (Some err)"
    by (simp_all add: Cleanup_missing_root Validate_missing_root)
next
  assume a: "(\<exists>i. os_Lstat fs projectPath = Inr i) \<and>
       (\<exists>r. modeAt fs (projectPath @ r) = Some ModeDir \<and> \<not> readableAt fs (projectPath @ r))"
  then obtain i where i: "os_Lstat fs projectPath = Inr i" by blast
  from a have nr: "\<not> allReadable fs projectPath" by (auto simp: allReadable_def)
  from Validate_unreadable[OF i nr]
  show "\<exists>q. ValidateNoStyleConflicts fs projectPath = Some (Some (PathError q EACCES))" .
  from CleanupStyleConflicts_returns[of fs projectPath style] obtain r fs'
    where run: "CleanupStyleConflicts fs projectPath style = Some (r, fs')" by blast
  from nr Cleanup_allReadable[of fs projectPath style fs'] run have "r \<noteq> None" by auto
  with run show "\<exists>e fs'. CleanupStyleConflicts fs projectPath style = Some (Some e, fs')" by auto
qed

theorem traversal_errors_witness:
  "os_Lstat (Dir True True []) [''gone''] = Inl (PathError [''gone''] ENOENT) \<and>
   CleanupStyleConflicts (Dir True True []) [''gone''] ''gozero'' = Some (None, Dir True True []) \<and>
   ValidateNoStyleConflicts (Dir True True []) [''gone''] = Some (Some (PathError [''gone''] ENOENT)) \<and>
   os_Lstat Regular [''below''] = Inl (PathError [''below''] ENOTDIR) \<and>
   CleanupStyleConflicts Regular [''below''] ''gozero''
     = Some (Some (PathError [''below''] ENOTDIR), Regular) \<and>
   modeAt lockedProject [''vendor''] = Some ModeDir \<and>
   \<not> readableAt lockedProject [''vendor''] \<and>
   (\<exists>q. ValidateNoStyleConflicts lockedProject [] = Some (Some (PathError q EACCES))) \<and>
   (\<exists>e fs'. CleanupStyleConflicts lockedProject [] ''gozero'' = Some (Some e, fs'))"
proof -
  have g: "os_Lstat (Dir True True []) [''gone''] = Inl (PathError [''gone''] ENOENT)"
    by code_simp
  have b: "os_Lstat Regular [''below''] = Inl (PathError [''below''] ENOTDIR)"
    by code_simp
  have l: "os_Lstat lockedProject [] = Inr (FileInfo ModeDir)"
    by code_simp
  have v: "modeAt lockedProject ([] @ [''vendor'']) = Some ModeDir"
    and u: "\<not> readableAt lockedProject ([] @ [''vendor''])"
    by code_simp+
  from traversal_errors [where err = "PathError [''gone''] ENOENT" and fs = "Dir True True []"
      and projectPath = "[''gone'']" and style = "''gozero''"] g
  have 1: "CleanupStyleConflicts (Dir True True []) [''gone''] ''gozero'' = Some (None, Dir True True []) \<and>
   ValidateNoStyleConflicts (Dir True True []) [''gone''] = Some (Some (PathError [''gone''] ENOENT))"
    by simp
  from traversal_errors [where err = "PathError [''below''] ENOTDIR" and fs = Regular
      and projectPath = "[''below'']" and style = "''gozero''"] b
  have 2: "CleanupStyleConflicts Regular [''below''] ''gozero''
     = Some (Some (PathError [''below''] ENOTDIR), Regular)"
    by simp
  from traversal_errors [where fs = lockedProject and projectPath = "[]" and style = "''gozero''"] l v u
  have 3: "(\<exists>q. ValidateNoStyleConflicts lockedProject [] = Some (Some (PathError q EACCES))) \<and>
   (\<exists>e fs'. CleanupStyleConflicts lockedProject [] ''gozero'' = Some (Some e, fs'))"
    by blast
  from g b v u 1 2 3 show ?thesis by simp
qed

text \<open>The claim as written has both functions absorb not-found.  The validation does not:
  handed the not-found error of a missing project path, its visitor returns it and the
  function fails with it.\<close>

theorem traversal_errors_counterexample:
  "os_IsNotExist (PathError [''gone''] ENOENT) \<and>
   validateVisit [''gone''] [''gone''] None (Some (PathError [''gone''] ENOENT)) (Dir True True [], [])
     = (Some (PathError [''gone''] ENOENT), (Dir True True [], [])) \<and>
   ValidateNoStyleConflicts (Dir True True []) [''gone''] = Some (Some (PathError [''gone''] ENOENT))"
  by code_simp

end
